theory Spec2Isabelle
  imports Main "HOL-Library.Sublist"
begin

text \<open>
  The logo fetcher \<open>fetch-logos-only.py\<close>: the class \<open>LogoFetcher\<close> and \<open>main\<close>, function by
  function under the names of the source. The pure functions (\<open>sanitize_filename\<close>,
  \<open>is_logo_file\<close>) are functions on strings. The others talk to Wikipedia, to Wikimedia
  Commons and to the file system: they take the log of the run so far and return it
  extended by what they did, and the answers of the outside are a parameter.
\<close>

section \<open>Python strings\<close>

text \<open>
  A Python \<open>str\<close> is a sequence of Unicode code points, and \<open>len\<close>, slicing, \<open>in\<close>,
  \<open>endswith\<close> and \<open>replace\<close> all count code points. A character is therefore modelled as
  its code point (a natural number) and a string as a list of them. Literals of the source,
  all ASCII, are written \<open>lit ''...''\<close>.
\<close>

type_synonym pychar = nat
type_synonym pystr = "pychar list"

definition lit :: "string \<Rightarrow> pystr" where
  "lit s = map of_char s"

text \<open>
  The Unicode character database of the Python runtime is not part of the repository. Its
  ASCII part is written out below; the part beyond ASCII is a parameter of the model:
  \<open>u_isalnum\<close> is \<open>str.isalnum\<close> and \<open>u_isspace\<close> is \<open>str.isspace\<close> on a code point from 128
  on, and \<open>u_lower s i\<close> is what \<open>str.lower\<close> puts for the non-ASCII character at index \<open>i\<close>
  of \<open>s\<close> (one or more code points; the string is an argument because the capital sigma is
  lowered according to its neighbours).
\<close>

record ucd =
  u_isalnum :: "pychar \<Rightarrow> bool"
  u_isspace :: "pychar \<Rightarrow> bool"
  u_lower :: "pystr \<Rightarrow> nat \<Rightarrow> pystr"

definition py_isalnum :: "ucd \<Rightarrow> pychar \<Rightarrow> bool" where
  "py_isalnum U c =
     (if c < 128 then (48 \<le> c \<and> c \<le> 57) \<or> (65 \<le> c \<and> c \<le> 90) \<or> (97 \<le> c \<and> c \<le> 122)
      else u_isalnum U c)"

definition py_isspace :: "ucd \<Rightarrow> pychar \<Rightarrow> bool" where
  "py_isspace U c =
     (if c < 128 then (9 \<le> c \<and> c \<le> 13) \<or> (28 \<le> c \<and> c \<le> 32) else u_isspace U c)"

definition ascii_lower :: "pychar \<Rightarrow> pychar" where
  "ascii_lower c = (if 65 \<le> c \<and> c \<le> 90 then c + 32 else c)"

fun lower_from :: "ucd \<Rightarrow> pystr \<Rightarrow> nat \<Rightarrow> pystr \<Rightarrow> pystr" where
  "lower_from U s i [] = []"
| "lower_from U s i (c # cs) =
     (if c < 128 then [ascii_lower c] else u_lower U s i) @ lower_from U s (Suc i) cs"

definition str_lower :: "ucd \<Rightarrow> pystr \<Rightarrow> pystr" where
  \<comment> \<open>\<open>s.lower()\<close>\<close>
  "str_lower U s = lower_from U s 0 s"

fun str_contains :: "pystr \<Rightarrow> pystr \<Rightarrow> bool" where
  \<comment> \<open>\<open>sub in s\<close>\<close>
  "str_contains sub [] = (sub = [])"
| "str_contains sub (c # cs) = (prefix sub (c # cs) \<or> str_contains sub cs)"

definition str_endswith :: "pystr \<Rightarrow> pystr \<Rightarrow> bool" where
  \<comment> \<open>\<open>s.endswith(suf)\<close>\<close>
  "str_endswith s suf = prefix (rev suf) (rev s)"

section \<open>Regular expressions of \<open>sanitize_filename\<close>\<close>

definition re_word :: "ucd \<Rightarrow> pychar \<Rightarrow> bool" where
  \<comment> \<open>\<open>\w\<close> on a \<open>str\<close> pattern: alphanumeric or the underscore\<close>
  "re_word U c = (py_isalnum U c \<or> c = 95)"

definition re_space :: "ucd \<Rightarrow> pychar \<Rightarrow> bool" where
  \<comment> \<open>\<open>\s\<close> on a \<open>str\<close> pattern\<close>
  "re_space U c = py_isspace U c"

definition kept_char :: "ucd \<Rightarrow> pychar \<Rightarrow> bool" where
  \<comment> \<open>the complement of the class \<open>[^\w\s-]\<close>\<close>
  "kept_char U c = (re_word U c \<or> re_space U c \<or> c = 45)"

definition sep_char :: "ucd \<Rightarrow> pychar \<Rightarrow> bool" where
  \<comment> \<open>the class \<open>[-\s]\<close>\<close>
  "sep_char U c = (c = 45 \<or> re_space U c)"

function sub_runs :: "(pychar \<Rightarrow> bool) \<Rightarrow> pystr \<Rightarrow> pystr" where
  \<comment> \<open>\<open>re.sub(r'[...]+', '_', s)\<close>: every maximal run of the class becomes one underscore\<close>
  "sub_runs p [] = []"
| "sub_runs p (c # cs) =
     (if p c then 95 # sub_runs p (dropWhile p cs) else c # sub_runs p cs)"
  by pat_completeness auto
termination
  by (relation "measure (\<lambda>(p, s). length s)") (auto simp: length_dropWhile_le less_Suc_eq_le)

definition sanitize_filename :: "ucd \<Rightarrow> pystr \<Rightarrow> pystr" where
  "sanitize_filename U name =
     (let safe_name = filter (kept_char U) name;
          safe_name = sub_runs (sep_char U) safe_name
      in take 50 safe_name)"

section \<open>The logo classifier\<close>

definition logo_keywords :: "pystr list" where
  "logo_keywords = map lit
     [''logo'', ''wordmark'', ''emblem'', ''symbol'', ''brand'',
      ''trademark'', ''corporate'', ''company_logo'', ''logotype'',
      ''mark'', ''insignia'']"

definition skip_keywords :: "pystr list" where
  "skip_keywords = map lit
     [''commons-logo'', ''wiki'', ''wikidata'', ''wikimedia'',
      ''edit-icon'', ''ambox'', ''merge'', ''disambig'']"

definition has_logo_keyword :: "pystr \<Rightarrow> bool" where
  "has_logo_keyword filename_lower = list_ex (\<lambda>keyword. str_contains keyword filename_lower) logo_keywords"

definition is_png_svg :: "pystr \<Rightarrow> bool" where
  "is_png_svg filename_lower =
     (str_endswith filename_lower (lit ''.png'') \<or> str_endswith filename_lower (lit ''.svg''))"

definition has_skip_keyword :: "pystr \<Rightarrow> bool" where
  "has_skip_keyword filename_lower = list_ex (\<lambda>skip. str_contains skip filename_lower) skip_keywords"

definition is_logo_file :: "ucd \<Rightarrow> pystr \<Rightarrow> bool" where
  "is_logo_file U filename =
     (let filename_lower = str_lower U filename
      in has_logo_keyword filename_lower \<and> is_png_svg filename_lower
         \<and> \<not> has_skip_keyword filename_lower)"

section \<open>What the program exchanges with the outside\<close>

text \<open>
  The JSON answers of the two MediaWiki queries, with the shape the code reads: a \<open>query\<close>
  object holding a \<open>pages\<close> dictionary (in the order of \<open>items()\<close>); a key that may be
  missing is an \<open>option\<close>. The values have the types of the MediaWiki API: a MIME type and
  a URL are strings, a width, a height and a size are integers, \<open>imageinfo\<close> is a list of
  records and \<open>images\<close> a list of entries, each with a \<open>title\<close> at most. An entry of
  \<open>images\<close> from which no title string can be read (the key is missing: \<open>KeyError\<close>; or its
  value is not a string: the classifier's \<open>lower()\<close> raises) is \<open>None\<close>: the exception comes
  in the middle of the scan, before anything is printed for that entry. A body whose
  \<open>query\<close> or \<open>pages\<close> is not a dictionary is the body \<open>None\<close> of \<open>HttpReply\<close>: reading it
  raises before anything else is done with it, as a body that is not JSON does.
\<close>

record image_info =
  ii_url :: "pystr option"
  ii_width :: "int option"
  ii_height :: "int option"
  ii_mime :: "pystr option"
  ii_size :: "int option"

record commons_page =
  cp_imageinfo :: "image_info list option"

record wiki_page_data =
  wp_images :: "pystr option list option"
    \<comment> \<open>the \<open>title\<close> of each entry of \<open>images\<close>, \<open>None\<close> for an entry without one\<close>

record 'p api_query =
  q_pages :: "(pystr \<times> 'p) list option"

record 'p api_data =
  d_query :: "'p api_query option"

datatype 'p http_reply =
    ConnectionError  \<comment> \<open>\<open>requests.get\<close> raised\<close>
  | HttpReply int "'p api_data option"  \<comment> \<open>status code; the body, \<open>None\<close> when \<open>response.json()\<close> raises\<close>

datatype wiki_answer =
    WikiError  \<comment> \<open>\<open>exists()\<close> raised\<close>
  | NoArticle
  | Article pystr  \<comment> \<open>\<open>exists()\<close> is true; \<open>page.title\<close>\<close>

datatype download_reply =
    DownloadError
  | DownloadReply int "pystr option" "nat list"  \<comment> \<open>status code, content-type header, body\<close>

text \<open>The dictionary \<open>get_logo_info\<close> returns.\<close>

record logo_info =
  li_url :: "pystr option"
  li_width :: int
  li_height :: int
  li_mime :: pystr
  li_size :: int
  li_filename :: pystr

type_synonym path = "pystr list"

text \<open>What \<open>print\<close> is called with: one constructor for each message, with the values it shows.\<close>

datatype msg =
    Usage
  | LogosWillBeSavedTo path
  | NotAnImageFile pystr
  | Downloaded pystr pystr nat
  | FailedToDownload pystr
  | ErrorGettingLogoInfo
  | SearchingWikipedia pystr
  | NoWikipediaPage pystr
  | FoundPage pystr
  | ApiRequestFailed int
  | ScanningImages nat
  | FoundPotentialLogo pystr
  | LogoConfirmed int int pystr
  | NoImagesOnPage
  | ErrorFindingLogos pystr
  | BlankLineRule60
  | Rule60
  | Processing pystr
  | NoLogosFound pystr
  | FoundLogos nat pystr
  | CreatedFolder pystr
  | DownloadingLogo nat nat
  | Original pystr
  | SizeLine int int
  | FormatLine pystr
  | ErrorDownloadingLogo nat
  | Banner
  | Rule50
  | TargetFormat
  | CompaniesToProcess nat
  | FinalSummary
  | CompaniesProcessed nat
  | LogosFound nat
  | LogosDownloaded nat
  | SuccessRate nat nat
  | AllLogosSavedTo path

text \<open>
  Every effect of a run is an event of its log, a call together with what came back. The
  outside world is a parameter: it answers a call from the log so far, so that the same
  request may be answered differently at different moments.
\<close>

datatype event =
    Print msg
  | Mkdir path bool  \<comment> \<open>\<open>mkdir(exist_ok=True)\<close>; false when it raised\<close>
  | PageExists pystr wiki_answer  \<comment> \<open>\<open>wiki_wiki.page(v).exists()\<close>\<close>
  | GetImages pystr "wiki_page_data http_reply"  \<comment> \<open>the \<open>prop=images\<close> query on en.wikipedia.org\<close>
  | GetImageInfo pystr "commons_page http_reply"  \<comment> \<open>the \<open>prop=imageinfo\<close> query on Commons\<close>
  | Download pystr download_reply  \<comment> \<open>the streamed \<open>requests.get\<close> of a logo\<close>
  | WriteFile path "nat list" bool  \<comment> \<open>writing the file; false when opening or writing raised\<close>
  | Sleep nat

text \<open>
  \<open>print\<close> raises \<open>UnicodeEncodeError\<close> when the encoder of \<open>sys.stdout\<close> refuses the text,
  as the UTF-8 encoder refuses a lone surrogate. Which texts the encoder takes is a parameter
  as well, \<open>stdout_encodes\<close>, asked for the texts that come from outside: a company name of
  the command line, a title, a MIME type, a content type, a file or folder name. The fixed
  words of a message (its emoji included), the numbers, the text of an exception and the path
  of the working directory are taken to be encodable.
\<close>

record env =
  stdout_encodes :: "pystr \<Rightarrow> bool"
  fs_mkdir :: "event list \<Rightarrow> path \<Rightarrow> bool"
  fs_write :: "event list \<Rightarrow> path \<Rightarrow> nat list \<Rightarrow> bool"
  wiki_exists :: "event list \<Rightarrow> pystr \<Rightarrow> wiki_answer"
  images_api :: "event list \<Rightarrow> pystr \<Rightarrow> wiki_page_data http_reply"
  commons_api :: "event list \<Rightarrow> pystr \<Rightarrow> commons_page http_reply"
  http_get :: "event list \<Rightarrow> pystr \<Rightarrow> download_reply"

fun msg_texts :: "msg \<Rightarrow> pystr list" where
  \<comment> \<open>the texts from outside that a message shows\<close>
  "msg_texts (NotAnImageFile content_type) = [content_type]"
| "msg_texts (Downloaded folder filename n) = [folder, filename]"
| "msg_texts (FailedToDownload filename) = [filename]"
| "msg_texts (SearchingWikipedia company_name) = [company_name]"
| "msg_texts (NoWikipediaPage company_name) = [company_name]"
| "msg_texts (FoundPage title) = [title]"
| "msg_texts (FoundPotentialLogo img_title) = [img_title]"
| "msg_texts (LogoConfirmed w h mime_type) = [mime_type]"
| "msg_texts (ErrorFindingLogos company_name) = [company_name]"
| "msg_texts (Processing company_name) = [company_name]"
| "msg_texts (NoLogosFound company_name) = [company_name]"
| "msg_texts (FoundLogos n company_name) = [company_name]"
| "msg_texts (CreatedFolder folder) = [folder]"
| "msg_texts (Original filename) = [filename]"
| "msg_texts (FormatLine mime_type) = [mime_type]"
| "msg_texts m = []"

definition can_print :: "env \<Rightarrow> msg \<Rightarrow> bool" where
  "can_print env m = list_all (stdout_encodes env) (msg_texts m)"

fun py_prints :: "env \<Rightarrow> event list \<Rightarrow> msg list \<Rightarrow> bool \<times> event list" where
  \<comment> \<open>the \<open>print\<close> calls of the messages, one after the other, up to the first that raises;
      false when one did\<close>
  "py_prints env log [] = (True, log)"
| "py_prints env log (m # ms) =
     (if can_print env m then py_prints env (log @ [Print m]) ms else (False, log))"

definition dict_get :: "'a option \<Rightarrow> 'a \<Rightarrow> 'a" where
  \<comment> \<open>\<open>d.get(key, default)\<close> on the value of a key that may be missing\<close>
  "dict_get v dflt = (case v of None \<Rightarrow> dflt | Some x \<Rightarrow> x)"

definition pages_of :: "'p api_data \<Rightarrow> (pystr \<times> 'p) list" where
  \<comment> \<open>\<open>data.get('query', {}).get('pages', {})\<close>\<close>
  "pages_of data =
     (case d_query data of
        None \<Rightarrow> []
      | Some q \<Rightarrow> (case q_pages q of None \<Rightarrow> [] | Some ps \<Rightarrow> ps))"

section \<open>\<open>get_logo_info\<close>\<close>

function replace_nonempty :: "pystr \<Rightarrow> pystr \<Rightarrow> pystr \<Rightarrow> pystr" where
  "replace_nonempty old new [] = []"
| "replace_nonempty old new (c # cs) =
     (if old \<noteq> [] \<and> prefix old (c # cs)
      then new @ replace_nonempty old new (drop (length old) (c # cs))
      else c # replace_nonempty old new cs)"
  by pat_completeness auto
termination
  by (relation "measure (\<lambda>(old, new, s). length s)") (auto simp: neq_Nil_conv)

definition str_replace :: "pystr \<Rightarrow> pystr \<Rightarrow> pystr \<Rightarrow> pystr" where
  \<comment> \<open>\<open>s.replace(old, new)\<close>: every occurrence, found from left to right\<close>
  "str_replace s old new =
     (if old = [] then new @ concat (map (\<lambda>c. c # new) s) else replace_nonempty old new s)"

fun first_logo :: "pystr \<Rightarrow> (pystr \<times> commons_page) list \<Rightarrow> logo_info option" where
  \<comment> \<open>the loop over \<open>pages.items()\<close>\<close>
  "first_logo file_title [] = None"
| "first_logo file_title ((page_id, page_data) # rest) =
     (case cp_imageinfo page_data of
        None \<Rightarrow> first_logo file_title rest
      | Some [] \<Rightarrow> first_logo file_title rest
      | Some (image_info # _) \<Rightarrow>
          (let mime_type = dict_get (ii_mime image_info) [];
               width = dict_get (ii_width image_info) 0;
               height = dict_get (ii_height image_info) 0
           in if str_contains (lit ''png'') mime_type
                 \<or> (str_contains (lit ''svg'') mime_type \<and> width \<ge> 100)
              then Some \<lparr>li_url = ii_url image_info,
                         li_width = width,
                         li_height = height,
                         li_mime = mime_type,
                         li_size = dict_get (ii_size image_info) 0,
                         li_filename = str_replace file_title (lit ''File:'') []\<rparr>
              else first_logo file_title rest))"

datatype exn = RequestException | JSONDecodeError | KeyError | UnicodeEncodeError | OSError

definition try_get_logo_info :: "pystr \<Rightarrow> commons_page http_reply \<Rightarrow> exn + logo_info option" where
  \<comment> \<open>the body of the \<open>try\<close>, from what \<open>requests.get\<close> did\<close>
  "try_get_logo_info file_title reply =
     (case reply of
        ConnectionError \<Rightarrow> Inl RequestException
      | HttpReply status_code body \<Rightarrow>
          if status_code \<noteq> 200 then Inr None
          else (case body of
                  None \<Rightarrow> Inl JSONDecodeError
                | Some data \<Rightarrow> Inr (first_logo file_title (pages_of data))))"

definition get_logo_info :: "env \<Rightarrow> event list \<Rightarrow> pystr \<Rightarrow> logo_info option \<times> event list" where
  "get_logo_info env log file_title =
     (let reply = commons_api env log file_title;
          log1 = log @ [GetImageInfo file_title reply]
      in case try_get_logo_info file_title reply of
           Inl e \<Rightarrow> (None, log1 @ [Print ErrorGettingLogoInfo])
         | Inr logo \<Rightarrow> (logo, log1))"

section \<open>\<open>find_company_logos\<close>\<close>

definition search_variations :: "pystr \<Rightarrow> pystr list" where
  "search_variations company_name =
     [company_name,
      company_name @ lit '', Inc.'',
      company_name @ lit '' Inc.'',
      lit ''The '' @ company_name @ lit '' Company'']"

text \<open>
  What the loop over the name variants leaves in \<open>page\<close>. A page object of the
  \<open>wikipediaapi\<close> library is true in \<open>if not page\<close>; only \<open>None\<close> is not.
\<close>

datatype lookup =
    LookupRaised
  | NoPageFound  \<comment> \<open>\<open>page\<close> is still \<open>None\<close>\<close>
  | PageFound pystr pystr  \<comment> \<open>the variation the page was made from, and \<open>page.title\<close>\<close>

fun find_page :: "env \<Rightarrow> event list \<Rightarrow> pystr list \<Rightarrow> lookup \<times> event list" where
  \<comment> \<open>the loop over \<open>search_variations\<close>, left by \<open>break\<close>\<close>
  "find_page env log [] = (NoPageFound, log)"
| "find_page env log (variation # rest) =
     (let answer = wiki_exists env log variation;
          log1 = log @ [PageExists variation answer]
      in case answer of
           WikiError \<Rightarrow> (LookupRaised, log1)
         | NoArticle \<Rightarrow> find_page env log1 rest
         | Article title \<Rightarrow> (PageFound variation title, log1))"

fun scan_images ::
  "env \<Rightarrow> ucd \<Rightarrow> logo_info list \<times> event list \<Rightarrow> pystr option list
     \<Rightarrow> (exn + logo_info list) \<times> event list" where
  \<comment> \<open>the loop over \<open>images_list\<close>, appending to \<open>logos\<close>; an exception leaves it\<close>
  "scan_images env U (logos, log) [] = (Inr logos, log)"
| "scan_images env U (logos, log) (img_data # rest) =
     (case img_data of
        None \<Rightarrow> (Inl KeyError, log)
      | Some img_title \<Rightarrow>
          if is_logo_file U img_title
          then (case py_prints env log [FoundPotentialLogo img_title] of
                  (False, log0) \<Rightarrow> (Inl UnicodeEncodeError, log0)
                | (True, log0) \<Rightarrow>
                    (case get_logo_info env log0 img_title of
                       (None, log1) \<Rightarrow> scan_images env U (logos, log1) rest
                     | (Some logo_info, log1) \<Rightarrow>
                         (case py_prints env log1
                                 [LogoConfirmed (li_width logo_info) (li_height logo_info)
                                    (li_mime logo_info)] of
                            (False, log2) \<Rightarrow> (Inl UnicodeEncodeError, log2)
                          | (True, log2) \<Rightarrow>
                              scan_images env U (logos @ [logo_info], log2) rest)))
          else scan_images env U (logos, log) rest)"

fun scan_pages ::
  "env \<Rightarrow> ucd \<Rightarrow> logo_info list \<times> event list \<Rightarrow> (pystr \<times> wiki_page_data) list
     \<Rightarrow> (exn + logo_info list) \<times> event list" where
  \<comment> \<open>the loop over \<open>pages.items()\<close>\<close>
  "scan_pages env U (logos, log) [] = (Inr logos, log)"
| "scan_pages env U (logos, log) ((page_id, page_data) # rest) =
     (case wp_images page_data of
        Some images_list \<Rightarrow>
          (case scan_images env U (logos, log @ [Print (ScanningImages (length images_list))])
                  images_list of
             (Inl e, log1) \<Rightarrow> (Inl e, log1)
           | (Inr logos1, log1) \<Rightarrow> scan_pages env U (logos1, log1) rest)
      | None \<Rightarrow> scan_pages env U (logos, log @ [Print NoImagesOnPage]) rest)"

definition try_find_company_logos ::
  "env \<Rightarrow> ucd \<Rightarrow> event list \<Rightarrow> pystr \<Rightarrow> (exn + logo_info list) \<times> event list" where
  \<comment> \<open>the body of the \<open>try\<close>: the list it returns, or the exception that leaves it\<close>
  "try_find_company_logos env U log company_name =
     (case py_prints env log [SearchingWikipedia company_name] of
        (False, log0) \<Rightarrow> (Inl UnicodeEncodeError, log0)
      | (True, log0) \<Rightarrow>
          (case find_page env log0 (search_variations company_name) of
             (LookupRaised, log1) \<Rightarrow> (Inl RequestException, log1)
           | (NoPageFound, log1) \<Rightarrow>
               (case py_prints env log1 [NoWikipediaPage company_name] of
                  (False, log2) \<Rightarrow> (Inl UnicodeEncodeError, log2)
                | (True, log2) \<Rightarrow> (Inr [], log2))
           | (PageFound variation title, log1) \<Rightarrow>
               (case py_prints env log1 [FoundPage title] of
                  (False, log2) \<Rightarrow> (Inl UnicodeEncodeError, log2)
                | (True, log2) \<Rightarrow>
                    (let reply = images_api env log2 title;
                         log3 = log2 @ [GetImages title reply]
                     in case reply of
                          ConnectionError \<Rightarrow> (Inl RequestException, log3)
                        | HttpReply status_code body \<Rightarrow>
                            if status_code \<noteq> 200
                            then (Inr [], log3 @ [Print (ApiRequestFailed status_code)])
                            else (case body of
                                    None \<Rightarrow> (Inl JSONDecodeError, log3)
                                  | Some data \<Rightarrow> scan_pages env U ([], log3) (pages_of data))))))"

text \<open>
  The \<open>except\<close> of \<open>find_company_logos\<close> prints the company name and returns the empty list,
  whatever \<open>logos\<close> held. Its own \<open>print\<close> may raise; nothing catches that.
\<close>

definition find_company_logos ::
  "env \<Rightarrow> ucd \<Rightarrow> event list \<Rightarrow> pystr \<Rightarrow> (exn + logo_info list) \<times> event list" where
  "find_company_logos env U log company_name =
     (case try_find_company_logos env U log company_name of
        (Inr logos, log1) \<Rightarrow> (Inr logos, log1)
      | (Inl e, log1) \<Rightarrow>
          (case py_prints env log1 [ErrorFindingLogos company_name] of
             (False, log2) \<Rightarrow> (Inl UnicodeEncodeError, log2)
           | (True, log2) \<Rightarrow> (Inr [], log2)))"

section \<open>Downloading, \<open>process_company\<close>, \<open>run\<close> and \<open>main\<close>\<close>

record stats =
  companies_processed :: nat
  logos_found :: nat
  logos_downloaded :: nat

definition logo_dir :: path where
  \<comment> \<open>\<open>Path('./company_logos')\<close>\<close>
  "logo_dir = [lit ''company_logos'']"

definition path_join :: "path \<Rightarrow> pystr \<Rightarrow> path" where
  \<comment> \<open>\<open>folder / name\<close> for a name without a slash; an empty name leaves the folder\<close>
  "path_join folder name = (if name = [] then folder else folder @ [name])"

function str_of_nat :: "nat \<Rightarrow> pystr" where
  \<comment> \<open>the decimal digits an f-string writes\<close>
  "str_of_nat n = (if n < 10 then [48 + n] else str_of_nat (n div 10) @ [48 + n mod 10])"
  by pat_completeness auto
termination
  by (relation "measure id") auto

declare str_of_nat.simps [simp del]

definition try_download_logo_to_folder ::
  "env \<Rightarrow> event list \<Rightarrow> pystr option \<Rightarrow> pystr \<Rightarrow> path \<Rightarrow> (exn + bool) \<times> event list" where
  \<comment> \<open>the body of the \<open>try\<close>\<close>
  "try_download_logo_to_folder env log url filename folder_path =
     (case url of
        None \<Rightarrow> (Inl RequestException, log)
      | Some u \<Rightarrow>
          (let response = http_get env log u;
               log1 = log @ [Download u response]
           in case response of
                DownloadError \<Rightarrow> (Inl RequestException, log1)
              | DownloadReply status_code header body \<Rightarrow>
                  if 400 \<le> status_code \<and> status_code < 600
                  then (Inl RequestException, log1)
                  else
                    (let content_type = dict_get header []
                     in if \<not> str_contains (lit ''image'') content_type
                        then (case py_prints env log1 [NotAnImageFile content_type] of
                                (False, log2) \<Rightarrow> (Inl UnicodeEncodeError, log2)
                              | (True, log2) \<Rightarrow> (Inr False, log2))
                        else
                          (let filepath = path_join folder_path filename;
                               written = fs_write env log1 filepath body;
                               log2 = log1 @ [WriteFile filepath body written]
                           in if \<not> written then (Inl OSError, log2)
                              else (case py_prints env log2
                                           [Downloaded (last folder_path) filename (length body)] of
                                      (False, log3) \<Rightarrow> (Inl UnicodeEncodeError, log3)
                                    | (True, log3) \<Rightarrow> (Inr True, log3))))))"

definition download_logo_to_folder ::
  "env \<Rightarrow> event list \<Rightarrow> pystr option \<Rightarrow> pystr \<Rightarrow> path \<Rightarrow> (exn + bool) \<times> event list" where
  \<comment> \<open>the \<open>except\<close> prints the file name and returns \<open>False\<close>; its own \<open>print\<close> may raise\<close>
  "download_logo_to_folder env log url filename folder_path =
     (case try_download_logo_to_folder env log url filename folder_path of
        (Inr ok, log1) \<Rightarrow> (Inr ok, log1)
      | (Inl e, log1) \<Rightarrow>
          (case py_prints env log1 [FailedToDownload filename] of
             (False, log2) \<Rightarrow> (Inl UnicodeEncodeError, log2)
           | (True, log2) \<Rightarrow> (Inr False, log2)))"

fun download_all ::
  "env \<Rightarrow> path \<Rightarrow> nat \<Rightarrow> nat \<Rightarrow> stats \<times> event list \<Rightarrow> logo_info list \<Rightarrow> stats \<times> event list" where
  \<comment> \<open>the loop over \<open>enumerate(logos)\<close>: \<open>n\<close> is \<open>len(logos)\<close>, \<open>i\<close> the index; the \<open>except\<close> of
      its body prints and goes on with the next logo\<close>
  "download_all env company_dir n i (st, log) [] = (st, log)"
| "download_all env company_dir n i (st, log) (logo_info # rest) =
     (let original_filename = li_filename logo_info;
          ext = (if str_contains (lit ''png'') (li_mime logo_info) then lit ''png'' else lit ''svg'');
          filename = lit ''logo_'' @ str_of_nat (i + 1) @ lit ''.'' @ ext
      in case py_prints env log
                [DownloadingLogo (i + 1) n,
                 Original original_filename,
                 SizeLine (li_width logo_info) (li_height logo_info),
                 FormatLine (li_mime logo_info)] of
           (False, log1) \<Rightarrow>
             download_all env company_dir n (i + 1)
               (st, log1 @ [Print (ErrorDownloadingLogo (i + 1))]) rest
         | (True, log1) \<Rightarrow>
             (case download_logo_to_folder env log1 (li_url logo_info) filename company_dir of
                (Inl e, log2) \<Rightarrow>
                  download_all env company_dir n (i + 1)
                    (st, log2 @ [Print (ErrorDownloadingLogo (i + 1))]) rest
              | (Inr ok, log2) \<Rightarrow>
                  download_all env company_dir n (i + 1)
                    (if ok then st\<lparr>logos_downloaded := logos_downloaded st + 1\<rparr> else st,
                     log2 @ [Sleep 2])
                    rest))"

text \<open>
  \<open>process_company\<close> gives no statistics back when an exception leaves it: a \<open>print\<close> of
  its own that raises, \<open>find_company_logos\<close> raising, or \<open>company_dir.mkdir\<close> raising.
  Nothing catches that exception, and it ends the program.
\<close>

definition process_company ::
  "env \<Rightarrow> ucd \<Rightarrow> stats \<times> event list \<Rightarrow> pystr \<Rightarrow> stats option \<times> event list" where
  "process_company env U sl company_name =
     (case sl of (st, log) \<Rightarrow>
        (let st1 = st\<lparr>companies_processed := companies_processed st + 1\<rparr>
         in case py_prints env log [BlankLineRule60, Processing company_name, Rule60] of
              (False, log1) \<Rightarrow> (None, log1)
            | (True, log1) \<Rightarrow>
                (case find_company_logos env U log1 company_name of
                   (Inl e, log2) \<Rightarrow> (None, log2)
                 | (Inr logos, log2) \<Rightarrow>
                     if logos = []
                     then (case py_prints env log2 [NoLogosFound company_name] of
                             (False, log3) \<Rightarrow> (None, log3)
                           | (True, log3) \<Rightarrow> (Some st1, log3))
                     else
                       (let st2 = st1\<lparr>logos_found := logos_found st1 + length logos\<rparr>
                        in case py_prints env log2 [FoundLogos (length logos) company_name] of
                             (False, log3) \<Rightarrow> (None, log3)
                           | (True, log3) \<Rightarrow>
                               (let company_safe_name = sanitize_filename U company_name;
                                    company_dir = path_join logo_dir company_safe_name;
                                    made = fs_mkdir env log3 company_dir;
                                    log4 = log3 @ [Mkdir company_dir made]
                                in if \<not> made then (None, log4)
                                   else (case py_prints env log4
                                                [CreatedFolder (last company_dir)] of
                                           (False, log5) \<Rightarrow> (None, log5)
                                         | (True, log5) \<Rightarrow>
                                             (case download_all env company_dir (length logos) 0
                                                     (st2, log5) logos of
                                                (st3, log6) \<Rightarrow> (Some st3, log6))))))))"

definition print_summary :: "stats \<Rightarrow> event list" where
  "print_summary st =
     [Print BlankLineRule60, Print FinalSummary, Print Rule60,
      Print (CompaniesProcessed (companies_processed st)),
      Print (LogosFound (logos_found st)),
      Print (LogosDownloaded (logos_downloaded st))]
     @ (if logos_found st > 0 then [Print (SuccessRate (logos_downloaded st) (logos_found st))]
        else [])
     @ [Print (AllLogosSavedTo logo_dir)]"

datatype exit = Returned | Uncaught

fun run_companies :: "env \<Rightarrow> ucd \<Rightarrow> stats \<times> event list \<Rightarrow> pystr list \<Rightarrow> stats option \<times> event list" where
  \<comment> \<open>the loop of \<open>run\<close>\<close>
  "run_companies env U (st, log) [] = (Some st, log)"
| "run_companies env U (st, log) (company # rest) =
     (case process_company env U (st, log) company of
        (None, log1) \<Rightarrow> (None, log1)
      | (Some st1, log1) \<Rightarrow> run_companies env U (st1, log1 @ [Sleep 3]) rest)"

definition run :: "env \<Rightarrow> ucd \<Rightarrow> stats \<times> event list \<Rightarrow> pystr list \<Rightarrow> exit \<times> event list" where
  "run env U sl companies =
     (case sl of (st, log) \<Rightarrow>
        (case run_companies env U
                (st, log @ [Print Banner, Print Rule50, Print TargetFormat,
                            Print (CompaniesToProcess (length companies))])
                companies of
           (None, log1) \<Rightarrow> (Uncaught, log1)
         | (Some st1, log1) \<Rightarrow> (Returned, log1 @ print_summary st1)))"

definition init_fetcher :: "env \<Rightarrow> event list \<Rightarrow> stats option \<times> event list" where
  \<comment> \<open>\<open>LogoFetcher.__init__\<close>; nothing catches an exception of \<open>mkdir\<close>\<close>
  "init_fetcher env log =
     (let made = fs_mkdir env log logo_dir;
          log1 = log @ [Mkdir logo_dir made]
      in if \<not> made then (None, log1)
         else (Some \<lparr>companies_processed = 0, logos_found = 0, logos_downloaded = 0\<rparr>,
               log1 @ [Print (LogosWillBeSavedTo logo_dir)]))"

definition main :: "env \<Rightarrow> ucd \<Rightarrow> pystr list \<Rightarrow> exit \<times> event list" where
  \<comment> \<open>\<open>argv\<close> is \<open>sys.argv\<close>: the script's name, then the company names\<close>
  "main env U argv =
     (if length argv < 2 then (Returned, [Print Usage])
      else
        (let companies = drop 1 argv
         in case init_fetcher env [] of
              (None, log) \<Rightarrow> (Uncaught, log)
            | (Some st, log) \<Rightarrow> run env U (st, log) companies))"

section \<open>Reading a log\<close>

fun page_lookups :: "event list \<Rightarrow> (pystr \<times> wiki_answer) list" where
  "page_lookups [] = []"
| "page_lookups (PageExists v a # es) = (v, a) # page_lookups es"
| "page_lookups (e # es) = page_lookups es"

fun image_info_calls :: "event list \<Rightarrow> (pystr \<times> commons_page http_reply) list" where
  "image_info_calls [] = []"
| "image_info_calls (GetImageInfo t r # es) = (t, r) # image_info_calls es"
| "image_info_calls (e # es) = image_info_calls es"

definition images_of_pages :: "(pystr \<times> wiki_page_data) list \<Rightarrow> pystr option list" where
  \<comment> \<open>the entries of the pages' \<open>images\<close> lists, one page after the other\<close>
  "images_of_pages ps =
     concat (map (\<lambda>(page_id, page_data). case wp_images page_data of None \<Rightarrow> [] | Some ts \<Rightarrow> ts) ps)"

definition candidate_of_reply :: "pystr \<Rightarrow> commons_page http_reply \<Rightarrow> logo_info option" where
  \<comment> \<open>what \<open>get_logo_info\<close> returns for a title when the query is answered by this reply\<close>
  "candidate_of_reply file_title reply =
     (case try_get_logo_info file_title reply of Inl e \<Rightarrow> None | Inr logo \<Rightarrow> logo)"

fun answers :: "env \<Rightarrow> event list \<Rightarrow> event \<Rightarrow> bool" where
  \<comment> \<open>the event, coming after the log \<open>h\<close>, holds what the world answers at that moment\<close>
  "answers env h (Mkdir p made) = (made = fs_mkdir env h p)"
| "answers env h (PageExists v a) = (a = wiki_exists env h v)"
| "answers env h (GetImages t r) = (r = images_api env h t)"
| "answers env h (GetImageInfo t r) = (r = commons_api env h t)"
| "answers env h (Download u r) = (r = http_get env h u)"
| "answers env h (WriteFile p body written) = (written = fs_write env h p body)"
| "answers env h e = True"

fun transcript :: "env \<Rightarrow> event list \<Rightarrow> event list \<Rightarrow> bool" where
  \<comment> \<open>the events, coming after the log \<open>h\<close>, each hold the world's answer\<close>
  "transcript env h [] = True"
| "transcript env h (e # es) = (answers env h e \<and> transcript env (h @ [e]) es)"

fun is_print :: "event \<Rightarrow> bool" where
  "is_print (Print m) = True"
| "is_print e = False"

section \<open>Concrete inputs\<close>

text \<open>
  A character database that knows no letter, digit or blank beyond ASCII and lowers no
  character beyond ASCII. The concrete inputs below are ASCII.
\<close>

definition ucd_ascii_only :: ucd where
  "ucd_ascii_only =
     \<lparr>u_isalnum = (\<lambda>c. False), u_isspace = (\<lambda>c. False), u_lower = (\<lambda>s i. take 1 (drop i s))\<rparr>"

text \<open>
  A world for the examples: the article exists under the third name variant only, the
  listing query returns the given titles on one page, the metadata query returns one record
  for each title, and every folder, file and download succeeds.
\<close>

definition metadata_reply :: "pystr \<Rightarrow> image_info list \<Rightarrow> commons_page http_reply" where
  \<comment> \<open>status 200 and one page whose \<open>imageinfo\<close> is the given list of records\<close>
  "metadata_reply page_id infos =
     HttpReply 200 (Some \<lparr>d_query = Some \<lparr>q_pages = Some [(page_id, \<lparr>cp_imageinfo = Some infos\<rparr>)]\<rparr>\<rparr>)"

definition listing_reply :: "pystr \<Rightarrow> pystr list \<Rightarrow> wiki_page_data http_reply" where
  \<comment> \<open>status 200 and one page whose \<open>images\<close> have the given titles\<close>
  "listing_reply page_id titles =
     HttpReply 200
       (Some \<lparr>d_query = Some \<lparr>q_pages = Some [(page_id, \<lparr>wp_images = Some (map Some titles)\<rparr>)]\<rparr>\<rparr>)"

definition utf8_strict :: "pystr \<Rightarrow> bool" where
  \<comment> \<open>the UTF-8 encoder with the error handler \<open>strict\<close>: it refuses the surrogates\<close>
  "utf8_strict s = list_all (\<lambda>c. \<not> (55296 \<le> c \<and> c \<le> 57343)) s"

definition test_env :: "(pystr \<Rightarrow> wiki_answer) \<Rightarrow> pystr list \<Rightarrow> (pystr \<Rightarrow> image_info) \<Rightarrow> env" where
  "test_env wiki titles meta =
     \<lparr>stdout_encodes = utf8_strict,
      fs_mkdir = (\<lambda>log p. True),
      fs_write = (\<lambda>log p b. True),
      wiki_exists = (\<lambda>log v. wiki v),
      images_api = (\<lambda>log t. listing_reply (lit ''1'') titles),
      commons_api = (\<lambda>log t. metadata_reply (lit ''2'') [meta t]),
      http_get = (\<lambda>log u. DownloadReply 200 (Some (lit ''image/png'')) [137, 80, 78, 71])\<rparr>"

definition acme_wiki :: "pystr \<Rightarrow> wiki_answer" where
  "acme_wiki v = (if v = lit ''Acme Inc.'' then Article (lit ''Acme Inc.'') else NoArticle)"

definition acme_titles :: "pystr list" where
  "acme_titles =
     map lit [''File:Acme_logo.png'', ''File:Random.jpg'', ''File:Acme_emblem.svg'',
              ''File:Acme_wordmark.svg'']"

definition image_record :: "string \<Rightarrow> string \<Rightarrow> int \<Rightarrow> image_info" where
  "image_record u m w =
     \<lparr>ii_url = Some (lit u), ii_width = Some w, ii_height = Some w, ii_mime = Some (lit m),
      ii_size = Some 1000\<rparr>"

definition acme_meta :: "pystr \<Rightarrow> image_info" where
  "acme_meta t =
     (if t = lit ''File:Acme_emblem.svg''
      then image_record ''https://upload.example/emblem.svg'' ''image/svg+xml'' 80
      else if t = lit ''File:Acme_wordmark.svg''
      then image_record ''https://upload.example/wordmark.svg'' ''image/svg+xml'' 150
      else image_record ''https://upload.example/logo.png'' ''image/png'' 64)"

definition acme_env :: env where
  "acme_env = test_env acme_wiki acme_titles acme_meta"

definition acme_logo :: logo_info where
  "acme_logo =
     \<lparr>li_url = Some (lit ''https://upload.example/logo.png''), li_width = 64, li_height = 64,
      li_mime = lit ''image/png'', li_size = 1000, li_filename = lit ''Acme_logo.png''\<rparr>"

definition acme_wordmark :: logo_info where
  "acme_wordmark =
     \<lparr>li_url = Some (lit ''https://upload.example/wordmark.svg''), li_width = 150,
      li_height = 150, li_mime = lit ''image/svg+xml'', li_size = 1000,
      li_filename = lit ''Acme_wordmark.svg''\<rparr>"

text \<open>The same world with one listed title, whose record has a MIME string naming both formats.\<close>

definition odd_meta :: "pystr \<Rightarrow> image_info" where
  "odd_meta t = image_record ''https://upload.example/logo.png'' ''image/png+svg'' 50"

definition odd_env :: env where
  "odd_env = test_env acme_wiki [lit ''File:Acme_logo.png''] odd_meta"

text \<open>
  The folder-name rule in the words of the specification, for comparison with
  \<open>sanitize_filename\<close>: "name sanitized to a restricted character set, max 50 characters,
  unsafe characters collapsed to underscores", the restricted set being the alphanumeric
  characters and the underscore.
\<close>

definition collapse_unsafe_spec :: "ucd \<Rightarrow> pystr \<Rightarrow> pystr" where
  "collapse_unsafe_spec U name = take 50 (sub_runs (\<lambda>c. \<not> re_word U c) name)"



text \<open>
  The folder-name rule told step by step, for comparison with \<open>sanitize_filename\<close>. First
  every character that is neither alphanumeric, nor the underscore, nor a blank, nor the
  hyphen is deleted. Then each run of blanks and hyphens becomes one underscore: reading the
  string position by position, a blank or hyphen gives an underscore when it begins a run
  (the character before it, if any, is no blank or hyphen) and gives nothing when it
  continues one; any other character stays.
\<close>

definition delete_unsafe_spec :: "ucd \<Rightarrow> pystr \<Rightarrow> pystr" where
  "delete_unsafe_spec U name =
     [c \<leftarrow> name. py_isalnum U c \<or> c = 95 \<or> py_isspace U c \<or> c = 45]"

definition collapse_runs_spec :: "ucd \<Rightarrow> pystr \<Rightarrow> pystr" where
  "collapse_runs_spec U s =
     concat (map (\<lambda>i. if py_isspace U (s ! i) \<or> s ! i = 45
                       then (if 0 < i \<and> (py_isspace U (s ! (i - 1)) \<or> s ! (i - 1) = 45)
                             then [] else [95])
                       else [s ! i])
                 [0..<length s])"

text \<open>
  The same reading as a recursion, with a flag for "the character before was of the class";
  it stands between \<open>sub_runs\<close> and \<open>collapse_runs_spec\<close> in the proof that they agree.
\<close>

fun collapse_after :: "(pychar \<Rightarrow> bool) \<Rightarrow> bool \<Rightarrow> pystr \<Rightarrow> pystr" where
  "collapse_after p before [] = []"
| "collapse_after p before (c # cs) =
     (if p c then (if before then [] else [95]) else [c]) @ collapse_after p (p c) cs"

section \<open>Strings: the recursive tests are the usual notions\<close>

lemmas eval_defs = lit_def ucd_ascii_only_def str_lower_def ascii_lower_def
  has_logo_keyword_def has_skip_keyword_def is_png_svg_def str_endswith_def
  logo_keywords_def skip_keywords_def is_logo_file_def
  sanitize_filename_def kept_char_def sep_char_def re_word_def re_space_def
  py_isalnum_def py_isspace_def

lemmas env_defs = acme_env_def test_env_def acme_wiki_def acme_titles_def acme_meta_def
  image_record_def metadata_reply_def listing_reply_def

lemmas run_defs = find_company_logos_def try_find_company_logos_def search_variations_def
  get_logo_info_def try_get_logo_info_def pages_of_def dict_get_def str_replace_def Let_def
  can_print_def utf8_strict_def

lemma str_contains_sublist: "str_contains sub s = sublist sub s"
  by (induction s) (auto simp: sublist_Cons_right)

lemma str_endswith_suffix: "str_endswith s suf = suffix suf s"
  by (simp add: str_endswith_def suffix_to_prefix)

lemma has_logo_keyword_iff:
  "has_logo_keyword s \<longleftrightarrow> (\<exists>k \<in> set logo_keywords. sublist k s)"
  by (simp add: has_logo_keyword_def list_ex_iff str_contains_sublist)

lemma has_skip_keyword_iff:
  "has_skip_keyword s \<longleftrightarrow> (\<exists>k \<in> set skip_keywords. sublist k s)"
  by (simp add: has_skip_keyword_def list_ex_iff str_contains_sublist)

lemma is_png_svg_iff:
  "is_png_svg s \<longleftrightarrow> suffix (lit ''.png'') s \<or> suffix (lit ''.svg'') s"
  by (simp add: is_png_svg_def str_endswith_suffix)

section \<open>Properties of \<open>sanitize_filename\<close>\<close>

lemma set_sub_runs: "set (sub_runs p s) \<subseteq> insert 95 {c \<in> set s. \<not> p c}"
proof (induction p s rule: sub_runs.induct)
  case (1 p)
  then show ?case by simp
next
  case (2 p c cs)
  show ?case
  proof (cases "p c")
    case True
    have "set (dropWhile p cs) \<subseteq> set cs" by (auto dest: set_dropWhileD)
    with 2(1)[OF True] True show ?thesis by auto
  next
    case False
    with 2(2)[OF False] show ?thesis by auto
  qed
qed

lemma sub_runs_id: "\<forall>c\<in>set s. \<not> p c \<Longrightarrow> sub_runs p s = s"
  by (induction s) auto

lemma sub_runs_clean_prefix: "\<forall>c\<in>set a. \<not> p c \<Longrightarrow> sub_runs p (a @ s) = a @ sub_runs p s"
  by (induction a) auto

lemma sub_runs_run:
  "r \<noteq> [] \<Longrightarrow> \<forall>c\<in>set r. p c \<Longrightarrow> sub_runs p (r @ s) = 95 # sub_runs p (dropWhile p s)"
  by (cases r) (auto simp: dropWhile_append)

lemma underscore_word: "re_word U 95"
  by (simp add: re_word_def)

lemma underscore_not_sep: "\<not> sep_char U 95"
  by (simp add: sep_char_def re_space_def py_isspace_def)

lemma sanitize_chars:
  assumes "c \<in> set (sanitize_filename U name)"
  shows "re_word U c \<and> \<not> sep_char U c"
proof -
  from assms have "c \<in> set (sub_runs (sep_char U) (filter (kept_char U) name))"
    by (auto simp: sanitize_filename_def dest: in_set_takeD)
  with set_sub_runs[of "sep_char U" "filter (kept_char U) name"]
  have "c = 95 \<or> (kept_char U c \<and> \<not> sep_char U c)" by auto
  then show ?thesis
  proof
    assume "c = 95"
    then show ?thesis using underscore_word[of U] underscore_not_sep[of U] by simp
  next
    assume "kept_char U c \<and> \<not> sep_char U c"
    then show ?thesis by (auto simp: kept_char_def sep_char_def)
  qed
qed

lemma sanitize_length: "length (sanitize_filename U name) \<le> 50"
  by (simp add: sanitize_filename_def)

lemma sanitize_delete:
  "\<not> kept_char U x \<Longrightarrow> sanitize_filename U (a @ x # b) = sanitize_filename U (a @ b)"
  by (simp add: sanitize_filename_def)

lemma sanitize_collapse:
  assumes a: "\<forall>c\<in>set a. re_word U c \<and> \<not> sep_char U c"
      and b: "\<forall>c\<in>set b. re_word U c \<and> \<not> sep_char U c"
      and r: "r \<noteq> []" "\<forall>c\<in>set r. sep_char U c"
  shows "sanitize_filename U (a @ r @ b) = take 50 (a @ 95 # b)"
proof -
  have ka: "filter (kept_char U) a = a" using a by (simp add: filter_id_conv kept_char_def)
  have kb: "filter (kept_char U) b = b" using b by (simp add: filter_id_conv kept_char_def)
  have kr: "filter (kept_char U) r = r"
    using r(2) by (auto simp: filter_id_conv kept_char_def sep_char_def)
  have "sub_runs (sep_char U) (a @ r @ b) = a @ sub_runs (sep_char U) (r @ b)"
    using a by (simp add: sub_runs_clean_prefix)
  also have "sub_runs (sep_char U) (r @ b) = 95 # sub_runs (sep_char U) (dropWhile (sep_char U) b)"
    using r by (rule sub_runs_run)
  also have "dropWhile (sep_char U) b = b" using b by (cases b) auto
  also have "sub_runs (sep_char U) b = b" using b by (simp add: sub_runs_id)
  finally show ?thesis by (simp add: sanitize_filename_def ka kb kr)
qed

section \<open>The folder name, step by step\<close>

lemma collapse_after_run: "collapse_after p True s = collapse_after p True (dropWhile p s)"
  by (induction s) auto

lemma collapse_after_dropWhile:
  "collapse_after p True (dropWhile p s) = collapse_after p False (dropWhile p s)"
proof (cases "dropWhile p s")
  case Nil
  show ?thesis unfolding Nil by simp
next
  case (Cons x xs)
  with hd_dropWhile[of p s] have "\<not> p x" by simp
  then show ?thesis unfolding Cons by simp
qed

lemma sub_runs_collapse_after: "sub_runs p s = collapse_after p False s"
proof (induction p s rule: sub_runs.induct)
  case (1 p)
  then show ?case by simp
next
  case (2 p c cs)
  show ?case
  proof (cases "p c")
    case True
    have "sub_runs p (c # cs) = 95 # collapse_after p False (dropWhile p cs)"
      using True 2(1)[OF True] by simp
    also have "\<dots> = 95 # collapse_after p True cs"
      using collapse_after_run[of p cs] collapse_after_dropWhile[of p cs] by simp
    finally show ?thesis using True by simp
  next
    case False
    with 2(2)[OF False] show ?thesis by simp
  qed
qed

lemma collapse_after_index:
  "collapse_after p before s =
     concat (map (\<lambda>i. if p (s ! i)
                       then (if (if i = 0 then before else p (s ! (i - 1))) then [] else [95])
                       else [s ! i])
                 [0..<length s])"
proof (induction s arbitrary: before)
  case Nil
  then show ?case by simp
next
  case (Cons c cs)
  let ?f = "\<lambda>s before i. if p (s ! i)
               then (if (if i = 0 then before else p (s ! (i - 1))) then [] else [95])
               else [s ! i]"
  have u: "[0..<length (c # cs)] = 0 # map Suc [0..<length cs]"
    by (simp add: upt_conv_Cons map_Suc_upt del: upt_Suc)
  have "map (?f (c # cs) before \<circ> Suc) [0..<length cs] = map (?f cs (p c)) [0..<length cs]"
    by (rule map_cong[OF refl]) (auto simp: nth_Cons')
  then have "concat (map (?f (c # cs) before) [0..<length (c # cs)])
      = ?f (c # cs) before 0 @ concat (map (?f cs (p c)) [0..<length cs])"
    unfolding u by (simp only: list.map concat.simps map_map)
  also have "?f (c # cs) before 0 = (if p c then (if before then [] else [95]) else [c])"
    by simp
  also have "concat (map (?f cs (p c)) [0..<length cs]) = collapse_after p (p c) cs"
    using Cons.IH[of "p c"] by simp
  finally show ?case by simp
qed

lemma sub_runs_spec: "sub_runs (sep_char U) s = collapse_runs_spec U s"
proof -
  have "(\<lambda>i. if sep_char U (s ! i)
             then (if (if i = 0 then False else sep_char U (s ! (i - 1))) then [] else [95])
             else [s ! i])
      = (\<lambda>i. if py_isspace U (s ! i) \<or> s ! i = 45
                       then (if 0 < i \<and> (py_isspace U (s ! (i - 1)) \<or> s ! (i - 1) = 45)
                             then [] else [95])
                       else [s ! i])"
    by (auto simp: sep_char_def re_space_def fun_eq_iff)
  then show ?thesis
    unfolding sub_runs_collapse_after collapse_after_index collapse_runs_spec_def by simp
qed

lemma delete_unsafe_spec_filter: "filter (kept_char U) name = delete_unsafe_spec U name"
  by (simp add: delete_unsafe_spec_def kept_char_def re_word_def re_space_def disj_ac
        cong: filter_cong)

lemma sanitize_filename_steps:
  "sanitize_filename U name = take 50 (collapse_runs_spec U (delete_unsafe_spec U name))"
  by (simp add: sanitize_filename_def sub_runs_spec delete_unsafe_spec_filter)

lemma sanitize_coca_cola: "sanitize_filename U (lit ''Coca-Cola, Inc.'') = lit ''Coca_Cola_Inc''"
  by (simp add: lit_def sanitize_filename_def kept_char_def sep_char_def re_word_def
        re_space_def py_isalnum_def py_isspace_def)

section \<open>Printing\<close>

lemma py_prints_single [simp]:
  "py_prints env log [m] = (if can_print env m then (True, log @ [Print m]) else (False, log))"
  by simp

lemma py_prints_log:
  "\<exists>ps. snd (py_prints env log ms) = log @ ps \<and> list_all is_print ps"
proof (induction ms arbitrary: log)
  case Nil
  then show ?case by simp
next
  case (Cons m ms)
  show ?case
  proof (cases "can_print env m")
    case False
    then show ?thesis by simp
  next
    case True
    from Cons[of "log @ [Print m]"] obtain ps where
      "snd (py_prints env (log @ [Print m]) ms) = (log @ [Print m]) @ ps" "list_all is_print ps"
      by blast
    with True show ?thesis by (intro exI[of _ "Print m # ps"]) simp
  qed
qed

lemma py_prints_all:
  "list_all (can_print env) ms \<Longrightarrow> py_prints env log ms = (True, log @ map Print ms)"
  by (induction ms arbitrary: log) auto

lemma py_prints_extends:
  obtains b ps where "py_prints env log ms = (b, log @ ps)"
proof -
  from py_prints_log[of env log ms] obtain ps where "snd (py_prints env log ms) = log @ ps"
    by blast
  then have "py_prints env log ms = (fst (py_prints env log ms), log @ ps)"
    by (metis prod.collapse)
  with that show ?thesis by blast
qed

section \<open>Logs: what a run adds to its log, every answer there being the world's\<close>

lemma page_lookups_append: "page_lookups (a @ b) = page_lookups a @ page_lookups b"
  by (induction a rule: page_lookups.induct) auto

lemma image_info_calls_append: "image_info_calls (a @ b) = image_info_calls a @ image_info_calls b"
  by (induction a rule: image_info_calls.induct) auto

lemma get_logo_info_log:
  "get_logo_info env log t =
     (candidate_of_reply t (commons_api env log t),
      log @ GetImageInfo t (commons_api env log t)
            # (case try_get_logo_info t (commons_api env log t) of
                 Inl e \<Rightarrow> [Print ErrorGettingLogoInfo] | Inr x \<Rightarrow> []))"
  by (simp add: get_logo_info_def candidate_of_reply_def Let_def split: sum.splits)

lemma get_logo_info_new:
  obtains ps where "snd (get_logo_info env log t) = log @ GetImageInfo t (commons_api env log t) # ps"
    and "list_all is_print ps"
  by (cases "try_get_logo_info t (commons_api env log t)") (auto simp: get_logo_info_log)

lemma prints_page_lookups: "list_all is_print ps \<Longrightarrow> page_lookups ps = []"
  by (induction ps rule: page_lookups.induct) auto

lemma prints_image_info_calls: "list_all is_print ps \<Longrightarrow> image_info_calls ps = []"
  by (induction ps rule: image_info_calls.induct) auto


lemma transcript_append:
  "transcript env h (a @ b) = (transcript env h a \<and> transcript env (h @ a) b)"
  by (induction a arbitrary: h) auto

lemma transcript_prints: "list_all is_print ps \<Longrightarrow> transcript env h ps"
proof (induction ps arbitrary: h)
  case Nil
  then show ?case by simp
next
  case (Cons e es)
  then show ?case by (cases e) auto
qed

lemma get_logo_info_step:
  obtains c ps where
    "get_logo_info env log t = (c, log @ GetImageInfo t (commons_api env log t) # ps)"
    "c = candidate_of_reply t (commons_api env log t)" "list_all is_print ps"
proof -
  obtain ps where ps: "snd (get_logo_info env log t) = log @ GetImageInfo t (commons_api env log t) # ps"
    and pr: "list_all is_print ps" by (rule get_logo_info_new)
  have "fst (get_logo_info env log t) = candidate_of_reply t (commons_api env log t)"
    by (simp add: get_logo_info_log)
  with ps have "get_logo_info env log t
      = (candidate_of_reply t (commons_api env log t),
         log @ GetImageInfo t (commons_api env log t) # ps)"
    by (metis prod.collapse)
  with pr that show ?thesis by blast
qed

lemma scan_images_log:
  assumes "scan_images env U (logos0, log) entries = (res, log')"
  shows "\<exists>new. log' = log @ new \<and> page_lookups new = [] \<and> transcript env log new
           \<and> list_all (\<lambda>(t, r). is_logo_file U t) (image_info_calls new)
           \<and> (\<forall>logos. res = Inr logos \<longrightarrow>
                 (\<exists>refs. entries = map Some refs
                    \<and> map fst (image_info_calls new) = filter (is_logo_file U) refs)
                 \<and> logos = logos0
                     @ List.map_filter (\<lambda>(t, r). candidate_of_reply t r) (image_info_calls new))"
  using assms
proof (induction entries arbitrary: logos0 log)
  case Nil
  then show ?case by (intro exI[of _ "[]"]) auto
next
  case (Cons e rest)
  show ?case
  proof (cases e)
    case None
    with Cons.prems have "res = Inl KeyError" "log' = log" by simp_all
    then show ?thesis by (intro exI[of _ "[]"]) simp
  next
    case (Some t)
    show ?thesis
    proof (cases "is_logo_file U t")
      case False
      with Cons.prems Some have "scan_images env U (logos0, log) rest = (res, log')" by simp
      from Cons.IH[OF this] obtain new where
        n: "log' = log @ new" "page_lookups new = []" "transcript env log new"
           "list_all (\<lambda>(t, r). is_logo_file U t) (image_info_calls new)"
           "\<forall>logos. res = Inr logos \<longrightarrow>
                 (\<exists>refs. rest = map Some refs
                    \<and> map fst (image_info_calls new) = filter (is_logo_file U) refs)
                 \<and> logos = logos0
                     @ List.map_filter (\<lambda>(t, r). candidate_of_reply t r) (image_info_calls new)"
        by blast
      have "\<exists>refs. e # rest = map Some refs
                    \<and> map fst (image_info_calls new) = filter (is_logo_file U) refs"
        if "res = Inr logos" for logos
      proof -
        from n(5) that obtain refs where "rest = map Some refs"
          "map fst (image_info_calls new) = filter (is_logo_file U) refs" by blast
        with Some False show ?thesis by (intro exI[of _ "t # refs"]) simp
      qed
      with n show ?thesis by (intro exI[of _ new]) blast
    next
      case True
      show ?thesis
      proof (cases "can_print env (FoundPotentialLogo t)")
        case False
        with Cons.prems Some True have "res = Inl UnicodeEncodeError" "log' = log" by simp_all
        then show ?thesis by (intro exI[of _ "[]"]) simp
      next
        case cp: True
        let ?log0 = "log @ [Print (FoundPotentialLogo t)]"
        let ?r = "commons_api env ?log0 t"
        obtain c ps where g: "get_logo_info env ?log0 t = (c, ?log0 @ GetImageInfo t ?r # ps)"
          and c: "c = candidate_of_reply t ?r" and pr: "list_all is_print ps"
          by (rule get_logo_info_step)
        let ?log1 = "?log0 @ GetImageInfo t ?r # ps"
        let ?pre = "Print (FoundPotentialLogo t) # GetImageInfo t ?r # ps"
        have pre: "?log1 = log @ ?pre" "page_lookups ?pre = []" "transcript env log ?pre"
          "image_info_calls ?pre = [(t, ?r)]"
          using pr by (simp_all add: prints_page_lookups prints_image_info_calls transcript_prints)
        show ?thesis
        proof (cases c)
          case None
          with Cons.prems Some True cp g
          have "scan_images env U (logos0, ?log1) rest = (res, log')" by simp
          from Cons.IH[OF this] obtain new where
            n: "log' = ?log1 @ new" "page_lookups new = []" "transcript env ?log1 new"
               "list_all (\<lambda>(t, r). is_logo_file U t) (image_info_calls new)"
               "\<forall>logos. res = Inr logos \<longrightarrow>
                 (\<exists>refs. rest = map Some refs
                    \<and> map fst (image_info_calls new) = filter (is_logo_file U) refs)
                 \<and> logos = logos0
                     @ List.map_filter (\<lambda>(t, r). candidate_of_reply t r) (image_info_calls new)"
            by blast
          let ?new = "?pre @ new"
          have a: "log' = log @ ?new" using n(1) by simp
          have b: "page_lookups ?new = []" using n(2) pre(2) by (simp add: page_lookups_append)
          have d: "transcript env log ?new"
            using n(3) pre(1,3) by (simp add: transcript_append)
          have calls: "image_info_calls ?new = (t, ?r) # image_info_calls new"
            using pre(4) by (simp add: image_info_calls_append)
          have e: "list_all (\<lambda>(t, r). is_logo_file U t) (image_info_calls ?new)"
            using n(4) True unfolding calls by simp
          have f: "(\<exists>refs. e # rest = map Some refs
                    \<and> map fst (image_info_calls ?new) = filter (is_logo_file U) refs)
                 \<and> logos = logos0
                     @ List.map_filter (\<lambda>(t, r). candidate_of_reply t r) (image_info_calls ?new)"
            if "res = Inr logos" for logos
          proof -
            from n(5) that obtain refs where r: "rest = map Some refs"
              "map fst (image_info_calls new) = filter (is_logo_file U) refs"
              and l: "logos = logos0
                  @ List.map_filter (\<lambda>(t, r). candidate_of_reply t r) (image_info_calls new)"
              by blast
            have x: "e # rest = map Some (t # refs)
                \<and> map fst (image_info_calls ?new) = filter (is_logo_file U) (t # refs)"
              using r Some True unfolding calls by simp
            have y: "logos = logos0
                @ List.map_filter (\<lambda>(t, r). candidate_of_reply t r) (image_info_calls ?new)"
              using l None c unfolding calls by simp
            have "\<exists>refs. e # rest = map Some refs
                \<and> map fst (image_info_calls ?new) = filter (is_logo_file U) refs"
              by (rule exI[of _ "t # refs"]) (rule x)
            then show ?thesis using y by (rule conjI)
          qed
          from a b d e f show ?thesis by (intro exI[of _ ?new]) blast
        next
          case (Some lg)
          let ?m = "LogoConfirmed (li_width lg) (li_height lg) (li_mime lg)"
          show ?thesis
          proof (cases "can_print env ?m")
            case False
            with Cons.prems \<open>e = Some t\<close> True cp g Some
            have "res = Inl UnicodeEncodeError" "log' = ?log1" by simp_all
            then show ?thesis
              using pre True by (intro exI[of _ ?pre]) simp
          next
            case cm: True
            let ?log2 = "?log1 @ [Print ?m]"
            from Cons.prems \<open>e = Some t\<close> True cp g Some cm
            have "scan_images env U (logos0 @ [lg], ?log2) rest = (res, log')" by simp
            from Cons.IH[OF this] obtain new where
              n: "log' = ?log2 @ new" "page_lookups new = []" "transcript env ?log2 new"
                 "list_all (\<lambda>(t, r). is_logo_file U t) (image_info_calls new)"
                 "\<forall>logos. res = Inr logos \<longrightarrow>
                   (\<exists>refs. rest = map Some refs
                      \<and> map fst (image_info_calls new) = filter (is_logo_file U) refs)
                   \<and> logos = (logos0 @ [lg])
                       @ List.map_filter (\<lambda>(t, r). candidate_of_reply t r) (image_info_calls new)"
              by blast
            let ?new = "?pre @ Print ?m # new"
            have a: "log' = log @ ?new" using n(1) by simp
            have b: "page_lookups ?new = []" using n(2) pre(2) by (simp add: page_lookups_append)
            have "transcript env ?log1 (Print ?m # new)" using n(3) by simp
            then have d: "transcript env log ?new"
              using pre(1,3) by (simp add: transcript_append)
            have calls: "image_info_calls ?new = (t, ?r) # image_info_calls new"
              using pre(4) by (simp add: image_info_calls_append)
            have e: "list_all (\<lambda>(t, r). is_logo_file U t) (image_info_calls ?new)"
              using n(4) True unfolding calls by simp
            have f: "(\<exists>refs. e # rest = map Some refs
                      \<and> map fst (image_info_calls ?new) = filter (is_logo_file U) refs)
                   \<and> logos = logos0
                       @ List.map_filter (\<lambda>(t, r). candidate_of_reply t r) (image_info_calls ?new)"
              if "res = Inr logos" for logos
            proof -
              from n(5) that obtain refs where r: "rest = map Some refs"
                "map fst (image_info_calls new) = filter (is_logo_file U) refs"
                and l: "logos = (logos0 @ [lg])
                    @ List.map_filter (\<lambda>(t, r). candidate_of_reply t r) (image_info_calls new)"
                by blast
              have x: "e # rest = map Some (t # refs)
                  \<and> map fst (image_info_calls ?new) = filter (is_logo_file U) (t # refs)"
                using r \<open>e = Some t\<close> True unfolding calls by simp
              have y: "logos = logos0
                  @ List.map_filter (\<lambda>(t, r). candidate_of_reply t r) (image_info_calls ?new)"
                using l Some c unfolding calls by simp
              have "\<exists>refs. e # rest = map Some refs
                  \<and> map fst (image_info_calls ?new) = filter (is_logo_file U) refs"
                by (rule exI[of _ "t # refs"]) (rule x)
              then show ?thesis using y by (rule conjI)
            qed
            from a b d e f show ?thesis by (intro exI[of _ ?new]) blast
          qed
        qed
      qed
    qed
  qed
qed


lemma images_of_pages_Cons:
  "images_of_pages ((page_id, page_data) # rest)
     = (case wp_images page_data of None \<Rightarrow> [] | Some ts \<Rightarrow> ts) @ images_of_pages rest"
  by (simp add: images_of_pages_def)

lemma scan_pages_log:
  assumes "scan_pages env U (logos0, log) ps = (res, log')"
  shows "\<exists>new. log' = log @ new \<and> page_lookups new = [] \<and> transcript env log new
           \<and> list_all (\<lambda>(t, r). is_logo_file U t) (image_info_calls new)
           \<and> (\<forall>logos. res = Inr logos \<longrightarrow>
                 (\<exists>refs. images_of_pages ps = map Some refs
                    \<and> map fst (image_info_calls new) = filter (is_logo_file U) refs)
                 \<and> logos = logos0
                     @ List.map_filter (\<lambda>(t, r). candidate_of_reply t r) (image_info_calls new))"
  using assms
proof (induction ps arbitrary: logos0 log)
  case Nil
  then show ?case by (intro exI[of _ "[]"]) (auto simp: images_of_pages_def)
next
  case (Cons p rest)
  obtain page_id page_data where p: "p = (page_id, page_data)" by (cases p)
  show ?case
  proof (cases "wp_images page_data")
    case None
    let ?e = "Print NoImagesOnPage"
    from Cons.prems p None
    have "scan_pages env U (logos0, log @ [?e]) rest = (res, log')" by simp
    from Cons.IH[OF this] obtain new where
      n: "log' = (log @ [?e]) @ new" "page_lookups new = []" "transcript env (log @ [?e]) new"
         "list_all (\<lambda>(t, r). is_logo_file U t) (image_info_calls new)"
         "\<forall>logos. res = Inr logos \<longrightarrow>
                 (\<exists>refs. images_of_pages rest = map Some refs
                    \<and> map fst (image_info_calls new) = filter (is_logo_file U) refs)
                 \<and> logos = logos0
                     @ List.map_filter (\<lambda>(t, r). candidate_of_reply t r) (image_info_calls new)"
      by blast
    have i: "images_of_pages (p # rest) = images_of_pages rest"
      using p None by (simp add: images_of_pages_Cons)
    show ?thesis
      using n unfolding i by (intro exI[of _ "?e # new"]) simp
  next
    case (Some ts)
    let ?e = "Print (ScanningImages (length ts))"
    obtain res1 log1 where s1: "scan_images env U (logos0, log @ [?e]) ts = (res1, log1)"
      by (cases "scan_images env U (logos0, log @ [?e]) ts")
    from scan_images_log[OF s1] obtain new1 where
      n1: "log1 = (log @ [?e]) @ new1" "page_lookups new1 = []" "transcript env (log @ [?e]) new1"
          "list_all (\<lambda>(t, r). is_logo_file U t) (image_info_calls new1)"
          "\<forall>logos. res1 = Inr logos \<longrightarrow>
                 (\<exists>refs. ts = map Some refs
                    \<and> map fst (image_info_calls new1) = filter (is_logo_file U) refs)
                 \<and> logos = logos0
                     @ List.map_filter (\<lambda>(t, r). candidate_of_reply t r) (image_info_calls new1)"
      by blast
    have i: "images_of_pages (p # rest) = ts @ images_of_pages rest"
      using p Some by (simp add: images_of_pages_Cons)
    show ?thesis
    proof (cases res1)
      case (Inl x)
      with Cons.prems p Some s1 have "res = Inl x" "log' = log1" by simp_all
      then show ?thesis
        using n1(1-4) by (intro exI[of _ "?e # new1"]) simp
    next
      case (Inr logos1)
      with Cons.prems p Some s1 have "scan_pages env U (logos1, log1) rest = (res, log')" by simp
      from Cons.IH[OF this] obtain new2 where
        n2: "log' = log1 @ new2" "page_lookups new2 = []" "transcript env log1 new2"
            "list_all (\<lambda>(t, r). is_logo_file U t) (image_info_calls new2)"
            "\<forall>logos. res = Inr logos \<longrightarrow>
                 (\<exists>refs. images_of_pages rest = map Some refs
                    \<and> map fst (image_info_calls new2) = filter (is_logo_file U) refs)
                 \<and> logos = logos1
                     @ List.map_filter (\<lambda>(t, r). candidate_of_reply t r) (image_info_calls new2)"
        by blast
      from n1(5) Inr obtain refs1 where r1: "ts = map Some refs1"
        "map fst (image_info_calls new1) = filter (is_logo_file U) refs1"
        and l1: "logos1 = logos0
            @ List.map_filter (\<lambda>(t, r). candidate_of_reply t r) (image_info_calls new1)"
        by blast
      let ?new = "?e # new1 @ new2"
      have a: "log' = log @ ?new" using n1(1) n2(1) by simp
      have b: "page_lookups ?new = []" using n1(2) n2(2) by (simp add: page_lookups_append)
      have d: "transcript env log ?new" using n1(1,3) n2(3) by (simp add: transcript_append)
      have calls: "image_info_calls ?new = image_info_calls new1 @ image_info_calls new2"
        by (simp add: image_info_calls_append)
      have e: "list_all (\<lambda>(t, r). is_logo_file U t) (image_info_calls ?new)"
        using n1(4) n2(4) unfolding calls by simp
      have f: "(\<exists>refs. images_of_pages (p # rest) = map Some refs
                    \<and> map fst (image_info_calls ?new) = filter (is_logo_file U) refs)
                 \<and> logos = logos0
                     @ List.map_filter (\<lambda>(t, r). candidate_of_reply t r) (image_info_calls ?new)"
        if "res = Inr logos" for logos
      proof -
        from n2(5) that obtain refs2 where r2: "images_of_pages rest = map Some refs2"
          "map fst (image_info_calls new2) = filter (is_logo_file U) refs2"
          and l2: "logos = logos1
              @ List.map_filter (\<lambda>(t, r). candidate_of_reply t r) (image_info_calls new2)"
          by blast
        have x: "images_of_pages (p # rest) = map Some (refs1 @ refs2)
            \<and> map fst (image_info_calls ?new) = filter (is_logo_file U) (refs1 @ refs2)"
          using r1 r2 unfolding i calls by simp
        have y: "logos = logos0
            @ List.map_filter (\<lambda>(t, r). candidate_of_reply t r) (image_info_calls ?new)"
          using l1 l2 unfolding calls by (simp add: List.map_filter_def)
        have "\<exists>refs. images_of_pages (p # rest) = map Some refs
            \<and> map fst (image_info_calls ?new) = filter (is_logo_file U) refs"
          by (rule exI[of _ "refs1 @ refs2"]) (rule x)
        then show ?thesis using y by (rule conjI)
      qed
      from a b d e f show ?thesis by (intro exI[of _ ?new]) blast
    qed
  qed
qed


lemma find_page_log:
  assumes "find_page env log vs = (r, log')"
  shows "\<exists>tr. log' = log @ map (\<lambda>(v, a). PageExists v a) tr
           \<and> map fst tr = take (length tr) vs
           \<and> (\<forall>(v, a) \<in> set (butlast tr). a = NoArticle)
           \<and> (case r of
                 PageFound v t \<Rightarrow> tr \<noteq> [] \<and> last tr = (v, Article t)
               | NoPageFound \<Rightarrow> length tr = length vs \<and> (\<forall>(v, a) \<in> set tr. a = NoArticle)
               | LookupRaised \<Rightarrow> tr \<noteq> [] \<and> snd (last tr) = WikiError)"
  using assms
proof (induction vs arbitrary: log)
  case Nil
  then show ?case by auto
next
  case (Cons v rest)
  let ?a = "wiki_exists env log v"
  let ?log1 = "log @ [PageExists v ?a]"
  show ?case
  proof (cases ?a)
    case WikiError
    with Cons.prems have "r = LookupRaised" "log' = ?log1" by (auto simp: Let_def)
    then show ?thesis using WikiError by (intro exI[of _ "[(v, WikiError)]"]) simp
  next
    case (Article t)
    with Cons.prems have "r = PageFound v t" "log' = ?log1" by (auto simp: Let_def)
    then show ?thesis using Article by (intro exI[of _ "[(v, Article t)]"]) simp
  next
    case NoArticle
    with Cons.prems have "find_page env ?log1 rest = (r, log')" by (simp add: Let_def)
    from Cons.IH[OF this] obtain tr where
      t: "log' = ?log1 @ map (\<lambda>(v, a). PageExists v a) tr"
         "map fst tr = take (length tr) rest"
         "\<forall>(v, a) \<in> set (butlast tr). a = NoArticle"
         "case r of
            PageFound v t \<Rightarrow> tr \<noteq> [] \<and> last tr = (v, Article t)
          | NoPageFound \<Rightarrow> length tr = length rest \<and> (\<forall>(v, a) \<in> set tr. a = NoArticle)
          | LookupRaised \<Rightarrow> tr \<noteq> [] \<and> snd (last tr) = WikiError"
      by blast
    let ?tr = "(v, NoArticle) # tr"
    have "log' = log @ map (\<lambda>(v, a). PageExists v a) ?tr" using t(1) NoArticle by simp
    moreover have "map fst ?tr = take (length ?tr) (v # rest)" using t(2) by simp
    moreover have "\<forall>(v, a) \<in> set (butlast ?tr). a = NoArticle" using t(3) by auto
    moreover have "case r of
            PageFound v' t \<Rightarrow> ?tr \<noteq> [] \<and> last ?tr = (v', Article t)
          | NoPageFound \<Rightarrow> length ?tr = length (v # rest) \<and> (\<forall>(v, a) \<in> set ?tr. a = NoArticle)
          | LookupRaised \<Rightarrow> ?tr \<noteq> [] \<and> snd (last ?tr) = WikiError"
      using t(4) by (cases r) auto
    ultimately show ?thesis by (intro exI[of _ ?tr]) blast
  qed
qed

lemma lookups_no_image_info: "image_info_calls (map (\<lambda>(v, a). PageExists v a) tr) = []"
  by (induction tr) auto

lemma find_page_transcript:
  "\<exists>new. snd (find_page env log vs) = log @ new \<and> transcript env log new"
proof (induction vs arbitrary: log)
  case Nil
  then show ?case by simp
next
  case (Cons v rest)
  let ?e = "PageExists v (wiki_exists env log v)"
  show ?case
  proof (cases "wiki_exists env log v")
    case NoArticle
    from Cons.IH[of "log @ [?e]"] obtain new where
      n: "snd (find_page env (log @ [?e]) rest) = (log @ [?e]) @ new" "transcript env (log @ [?e]) new"
      by blast
    have "snd (find_page env log (v # rest)) = log @ (?e # new)"
      using NoArticle n(1) by (simp add: Let_def)
    moreover have "transcript env log (?e # new)" using n(2) by simp
    ultimately show ?thesis by blast
  next
    case WikiError
    then have "snd (find_page env log (v # rest)) = log @ [?e]" by (simp add: Let_def)
    moreover have "transcript env log [?e]" by simp
    ultimately show ?thesis by blast
  next
    case (Article t)
    then have "snd (find_page env log (v # rest)) = log @ [?e]" by (simp add: Let_def)
    moreover have "transcript env log [?e]" by simp
    ultimately show ?thesis by blast
  qed
qed

lemma find_page_new:
  assumes "find_page env log vs = (r, log')"
  obtains new where "log' = log @ new" "transcript env log new" "image_info_calls new = []"
proof -
  from find_page_log[OF assms] obtain tr where t: "log' = log @ map (\<lambda>(v, a). PageExists v a) tr"
    by blast
  from find_page_transcript[of env log vs] assms t
  have "transcript env log (map (\<lambda>(v, a). PageExists v a) tr)" by auto
  with t that show ?thesis by (simp add: lookups_no_image_info)
qed

lemma try_find_company_logos_log:
  assumes "try_find_company_logos env U log company_name = (res, log')"
  shows "\<exists>new. log' = log @ new \<and> transcript env log new
           \<and> list_all (\<lambda>(t, r). is_logo_file U t) (image_info_calls new)
           \<and> (\<forall>logos. res = Inr logos \<longrightarrow>
                 logos = List.map_filter (\<lambda>(t, r). candidate_of_reply t r) (image_info_calls new))"
proof (cases "can_print env (SearchingWikipedia company_name)")
  case False
  with assms have "log' = log" "res = Inl UnicodeEncodeError"
    by (simp_all add: try_find_company_logos_def)
  then show ?thesis by (intro exI[of _ "[]"]) simp
next
  case cs: True
  let ?s = "Print (SearchingWikipedia company_name)"
  obtain r log1 where fp: "find_page env (log @ [?s]) (search_variations company_name) = (r, log1)"
    by (cases "find_page env (log @ [?s]) (search_variations company_name)")
  from find_page_new[OF fp] obtain new1 where
    n1: "log1 = (log @ [?s]) @ new1" "transcript env (log @ [?s]) new1" "image_info_calls new1 = []"
    by blast
  have quiet: ?thesis
    if "log' = log1 @ es" "transcript env log1 es" "image_info_calls es = []"
       "\<forall>logos. res = Inr logos \<longrightarrow> logos = []" for es
  proof -
    let ?new = "?s # new1 @ es"
    have "log' = log @ ?new" using that(1) n1(1) by simp
    moreover have "transcript env log ?new" using that(2) n1(1,2) by (simp add: transcript_append)
    moreover have "image_info_calls ?new = []"
      using that(3) n1(3) by (simp add: image_info_calls_append)
    ultimately show ?thesis using that(4) by (intro exI[of _ ?new]) simp
  qed
  show ?thesis
  proof (cases r)
    case LookupRaised
    with assms cs fp have "log' = log1 @ []" "res = Inl RequestException"
      by (simp_all add: try_find_company_logos_def)
    then show ?thesis by (intro quiet[of "[]"]) simp_all
  next
    case NoPageFound
    show ?thesis
    proof (cases "can_print env (NoWikipediaPage company_name)")
      case False
      with assms cs fp NoPageFound have "log' = log1 @ []" "res = Inl UnicodeEncodeError"
        by (simp_all add: try_find_company_logos_def)
      then show ?thesis by (intro quiet[of "[]"]) simp_all
    next
      case True
      with assms cs fp NoPageFound
      have "log' = log1 @ [Print (NoWikipediaPage company_name)]" "res = Inr []"
        by (simp_all add: try_find_company_logos_def)
      then show ?thesis by (intro quiet[of "[Print (NoWikipediaPage company_name)]"]) simp_all
    qed
  next
    case (PageFound v title)
    show ?thesis
    proof (cases "can_print env (FoundPage title)")
      case False
      with assms cs fp PageFound have "log' = log1 @ []" "res = Inl UnicodeEncodeError"
        by (simp_all add: try_find_company_logos_def)
      then show ?thesis by (intro quiet[of "[]"]) simp_all
    next
      case cf: True
      let ?log2 = "log1 @ [Print (FoundPage title)]"
      let ?reply = "images_api env ?log2 title"
      let ?log3 = "?log2 @ [GetImages title ?reply]"
      let ?mid = "[Print (FoundPage title), GetImages title ?reply]"
      show ?thesis
      proof (cases ?reply)
        case ConnectionError
        with assms cs fp PageFound cf
        have "log' = log1 @ ?mid" "res = Inl RequestException"
          by (simp_all add: try_find_company_logos_def Let_def)
        then show ?thesis by (intro quiet[of ?mid]) simp_all
      next
        case (HttpReply status_code body)
        show ?thesis
        proof (cases "status_code \<noteq> 200")
          case True
          with assms cs fp PageFound cf HttpReply
          have "log' = log1 @ ?mid @ [Print (ApiRequestFailed status_code)]" "res = Inr []"
            by (simp_all add: try_find_company_logos_def Let_def)
          then show ?thesis
            by (intro quiet[of "?mid @ [Print (ApiRequestFailed status_code)]"]) simp_all
        next
          case False
          show ?thesis
          proof (cases body)
            case None
            with assms cs fp PageFound cf HttpReply False
            have "log' = log1 @ ?mid" "res = Inl JSONDecodeError"
              by (simp_all add: try_find_company_logos_def Let_def)
            then show ?thesis by (intro quiet[of ?mid]) simp_all
          next
            case (Some data)
            with assms cs fp PageFound cf HttpReply False
            have "scan_pages env U ([], ?log3) (pages_of data) = (res, log')"
              by (simp add: try_find_company_logos_def Let_def)
            from scan_pages_log[OF this] obtain new2 where
              n2: "log' = ?log3 @ new2" "transcript env ?log3 new2"
                  "list_all (\<lambda>(t, r). is_logo_file U t) (image_info_calls new2)"
                  "\<forall>logos. res = Inr logos \<longrightarrow> logos = []
                     @ List.map_filter (\<lambda>(t, r). candidate_of_reply t r) (image_info_calls new2)"
              by blast
            let ?new = "?s # new1 @ ?mid @ new2"
            have a: "log' = log @ ?new" using n2(1) n1(1) by simp
            have b: "transcript env log ?new"
              using n2(2) n1(1,2) by (simp add: transcript_append)
            have calls: "image_info_calls ?new = image_info_calls new2"
              using n1(3) by (simp add: image_info_calls_append)
            from a b n2(3,4) show ?thesis unfolding calls[symmetric]
              by (intro exI[of _ ?new]) simp
          qed
        qed
      qed
    qed
  qed
qed

lemma find_company_logos_log:
  assumes "find_company_logos env U log company_name = (res, log')"
  shows "\<exists>new. log' = log @ new \<and> transcript env log new
           \<and> list_all (\<lambda>(t, r). is_logo_file U t) (image_info_calls new)
           \<and> (\<forall>logos. res = Inr logos \<longrightarrow>
                 logos = [] \<or> logos
                   = List.map_filter (\<lambda>(t, r). candidate_of_reply t r) (image_info_calls new))"
proof -
  obtain res1 log1 where t: "try_find_company_logos env U log company_name = (res1, log1)"
    by (cases "try_find_company_logos env U log company_name")
  from try_find_company_logos_log[OF t] obtain new1 where
    n1: "log1 = log @ new1" "transcript env log new1"
        "list_all (\<lambda>(t, r). is_logo_file U t) (image_info_calls new1)"
        "\<forall>logos. res1 = Inr logos \<longrightarrow>
           logos = List.map_filter (\<lambda>(t, r). candidate_of_reply t r) (image_info_calls new1)"
    by blast
  show ?thesis
  proof (cases res1)
    case (Inr logos)
    with assms t have "res = Inr logos" "log' = log1" by (simp_all add: find_company_logos_def)
    with n1 Inr show ?thesis by (intro exI[of _ new1]) simp
  next
    case (Inl e)
    show ?thesis
    proof (cases "can_print env (ErrorFindingLogos company_name)")
      case False
      with assms t Inl have "res = Inl UnicodeEncodeError" "log' = log1"
        by (simp_all add: find_company_logos_def)
      with n1 show ?thesis by (intro exI[of _ new1]) simp
    next
      case True
      let ?e = "Print (ErrorFindingLogos company_name)"
      from assms t Inl True have "res = Inr []" "log' = log1 @ [?e]"
        by (simp_all add: find_company_logos_def)
      with n1 show ?thesis
        by (intro exI[of _ "new1 @ [?e]"]) (simp add: transcript_append image_info_calls_append)
    qed
  qed
qed

section \<open>Lowering keeps an ASCII lower-case keyword in place\<close>

lemma lower_from_append:
  "lower_from U s i (a @ b) = lower_from U s i a @ lower_from U s (i + length a) b"
  by (induction a arbitrary: i) auto

lemma lower_from_stable:
  "\<forall>c\<in>set k. c < 128 \<and> ascii_lower c = c \<Longrightarrow> lower_from U s i k = k"
  by (induction k arbitrary: i) auto

lemma sublist_str_lower:
  assumes "sublist k t" and "\<forall>c\<in>set k. c < 128 \<and> ascii_lower c = c"
  shows "sublist k (str_lower U t)"
proof -
  from assms(1) obtain a b where t: "t = a @ k @ b" by (auto simp: sublist_def)
  have "str_lower U t = lower_from U t 0 a @ k @ lower_from U t (length a + length k) b"
    unfolding str_lower_def
    by (subst (2) t) (simp add: lower_from_append lower_from_stable[OF assms(2)])
  then show ?thesis by (metis sublist_appendI)
qed

lemma skip_keywords_stable:
  "\<forall>k\<in>set skip_keywords. \<forall>c\<in>set k. c < 128 \<and> ascii_lower c = c"
  by (simp add: skip_keywords_def lit_def ascii_lower_def)

lemma is_logo_file_no_skip:
  assumes "is_logo_file U t" and "k \<in> set skip_keywords"
  shows "\<not> sublist k t"
proof
  assume "sublist k t"
  then have "sublist k (str_lower U t)"
    using skip_keywords_stable assms(2) by (intro sublist_str_lower) auto
  with assms show False by (auto simp: is_logo_file_def Let_def has_skip_keyword_iff)
qed

section \<open>What an accepted record looks like\<close>

lemma first_logo_Some:
  "first_logo t ps = Some c \<Longrightarrow>
     sublist (lit ''png'') (li_mime c) \<or> (sublist (lit ''svg'') (li_mime c) \<and> 100 \<le> li_width c)"
proof (induction ps)
  case Nil
  then show ?case by simp
next
  case (Cons p ps)
  obtain page_id page_data where p: "p = (page_id, page_data)" by (cases p)
  show ?case
  proof (cases "cp_imageinfo page_data")
    case None
    with Cons p show ?thesis by simp
  next
    case (Some infos)
    show ?thesis
    proof (cases infos)
      case Nil
      with Cons p Some show ?thesis by simp
    next
      case (Cons info more)
      with Cons.prems Cons.IH p Some show ?thesis
        by (auto simp: Let_def str_contains_sublist split: if_splits)
    qed
  qed
qed

lemma candidate_of_reply_Some:
  assumes "candidate_of_reply t r = Some c"
  shows "sublist (lit ''png'') (li_mime c) \<or> (sublist (lit ''svg'') (li_mime c) \<and> 100 \<le> li_width c)"
proof -
  from assms obtain ps where "first_logo t ps = Some c"
    by (auto simp: candidate_of_reply_def try_get_logo_info_def
             split: sum.splits http_reply.splits if_splits option.splits)
  then show ?thesis by (rule first_logo_Some)
qed

section \<open>The example run\<close>

lemma acme_logos:
  "fst (find_company_logos acme_env ucd_ascii_only [] (lit ''Acme'')) = Inr [acme_logo, acme_wordmark]"
  by (simp add: run_defs env_defs eval_defs acme_logo_def acme_wordmark_def)

lemma acme_fetches:
  "map fst (image_info_calls (snd (find_company_logos acme_env ucd_ascii_only [] (lit ''Acme''))))
     = map lit [''File:Acme_logo.png'', ''File:Acme_emblem.svg'', ''File:Acme_wordmark.svg'']"
  by (simp add: run_defs env_defs eval_defs)


section \<open>Replacing a pattern that occurs once, in front\<close>

lemma replace_nonempty_absent: "\<not> sublist old s \<Longrightarrow> replace_nonempty old new s = s"
proof (induction s)
  case Nil
  then show ?case by simp
next
  case (Cons c cs)
  then have "\<not> prefix old (c # cs)" "\<not> sublist old cs"
    by (auto simp: sublist_Cons_right)
  with Cons.IH show ?case by simp
qed

lemma str_replace_single_prefix:
  assumes "old \<noteq> []" and "\<not> sublist old rest"
  shows "str_replace (old @ rest) old [] = rest"
proof -
  obtain c cs where o: "old = c # cs" using assms(1) by (cases old) auto
  have "replace_nonempty old [] (old @ rest) = replace_nonempty old [] rest"
    unfolding o by (simp del: replace_nonempty.simps add: replace_nonempty.simps(2)[of "c # cs" "[]" c "cs @ rest"])
  then show ?thesis using assms by (simp add: str_replace_def replace_nonempty_absent)
qed

section \<open>\<open>main\<close> with a company name makes the logo folder first\<close>

lemma try_download_logo_to_folder_extends:
  "\<exists>new. snd (try_download_logo_to_folder env log url filename folder) = log @ new"
  by (auto simp: try_download_logo_to_folder_def Let_def
           split: option.splits download_reply.splits)

lemma download_logo_to_folder_extends:
  "\<exists>new. snd (download_logo_to_folder env log url filename folder) = log @ new"
proof -
  obtain r log1 where t: "try_download_logo_to_folder env log url filename folder = (r, log1)"
    by (cases "try_download_logo_to_folder env log url filename folder")
  with try_download_logo_to_folder_extends[of env log url filename folder]
  obtain new1 where "log1 = log @ new1" by auto
  with t show ?thesis
    by (cases r) (auto simp: download_logo_to_folder_def)
qed

lemma download_all_extends:
  "\<exists>new. snd (download_all env dir n i (st, log) logos) = log @ new"
proof (induction logos arbitrary: i st log)
  case Nil
  then show ?case by simp
next
  case (Cons l logos)
  let ?ext = "if str_contains (lit ''png'') (li_mime l) then lit ''png'' else lit ''svg''"
  let ?filename = "lit ''logo_'' @ str_of_nat (i + 1) @ lit ''.'' @ ?ext"
  let ?ms = "[DownloadingLogo (i + 1) n, Original (li_filename l),
              SizeLine (li_width l) (li_height l), FormatLine (li_mime l)]"
  let ?err = "Print (ErrorDownloadingLogo (i + 1))"
  obtain b ps where pp: "py_prints env log ?ms = (b, log @ ps)" by (rule py_prints_extends)
  show ?case
  proof (cases b)
    case False
    from Cons.IH[of "i + 1" st "(log @ ps) @ [?err]"] obtain new where
      "snd (download_all env dir n (i + 1) (st, (log @ ps) @ [?err]) logos)
         = ((log @ ps) @ [?err]) @ new" by blast
    moreover have "download_all env dir n i (st, log) (l # logos)
        = download_all env dir n (i + 1) (st, (log @ ps) @ [?err]) logos"
      using pp False by (simp del: py_prints.simps add: Let_def)
    ultimately show ?thesis by simp
  next
    case True
    obtain r log2 where d: "download_logo_to_folder env (log @ ps) (li_url l) ?filename dir = (r, log2)"
      by (cases "download_logo_to_folder env (log @ ps) (li_url l) ?filename dir")
    with download_logo_to_folder_extends[of env "log @ ps" "li_url l" ?filename dir]
    obtain new1 where n1: "log2 = (log @ ps) @ new1" by auto
    show ?thesis
    proof (cases r)
      case (Inl e)
      from Cons.IH[of "i + 1" st "log2 @ [?err]"] obtain new where
        "snd (download_all env dir n (i + 1) (st, log2 @ [?err]) logos) = (log2 @ [?err]) @ new"
        by blast
      moreover have "download_all env dir n i (st, log) (l # logos)
          = download_all env dir n (i + 1) (st, log2 @ [?err]) logos"
        using pp True d Inl by (simp del: py_prints.simps add: Let_def)
      ultimately show ?thesis using n1 by simp
    next
      case (Inr ok)
      let ?st1 = "if ok then st\<lparr>logos_downloaded := logos_downloaded st + 1\<rparr> else st"
      from Cons.IH[of "i + 1" ?st1 "log2 @ [Sleep 2]"] obtain new where
        "snd (download_all env dir n (i + 1) (?st1, log2 @ [Sleep 2]) logos)
           = (log2 @ [Sleep 2]) @ new" by blast
      moreover have "download_all env dir n i (st, log) (l # logos)
          = download_all env dir n (i + 1) (?st1, log2 @ [Sleep 2]) logos"
        using pp True d Inr by (simp del: py_prints.simps add: Let_def)
      ultimately show ?thesis using n1 by simp
    qed
  qed
qed

lemma find_company_logos_extends:
  "\<exists>new. snd (find_company_logos env U log company_name) = log @ new"
  using find_company_logos_log[OF prod.collapse[symmetric], of env U log company_name] by auto

lemma process_company_extends:
  "\<exists>new. snd (process_company env U (st, log) company_name) = log @ new"
proof -
  let ?ms = "[BlankLineRule60, Processing company_name, Rule60]"
  obtain b ps where pp: "py_prints env log ?ms = (b, log @ ps)" by (rule py_prints_extends)
  show ?thesis
  proof (cases b)
    case False
    with pp show ?thesis by (simp del: py_prints.simps add: process_company_def Let_def)
  next
    case True
    obtain res log2 where f: "find_company_logos env U (log @ ps) company_name = (res, log2)"
      by (cases "find_company_logos env U (log @ ps) company_name")
    with find_company_logos_extends[of env U "log @ ps" company_name]
    obtain new1 where n1: "log2 = (log @ ps) @ new1" by auto
    show ?thesis
    proof (cases res)
      case (Inl e)
      with pp True f n1 show ?thesis
        by (simp del: py_prints.simps add: process_company_def Let_def)
    next
      case (Inr logos)
      show ?thesis
      proof (cases "logos = []")
        case empty: True
        with pp \<open>b\<close> f n1 Inr show ?thesis
          by (simp del: py_prints.simps add: process_company_def Let_def)
      next
        case False
        let ?st2 = "st\<lparr>companies_processed := companies_processed st + 1,
                       logos_found := logos_found st + length logos\<rparr>"
        let ?dir = "path_join logo_dir (sanitize_filename U company_name)"
        show ?thesis
        proof (cases "can_print env (FoundLogos (length logos) company_name)")
          case nf: False
          with pp \<open>b\<close> f n1 Inr \<open>logos \<noteq> []\<close> show ?thesis
            by (simp del: py_prints.simps add: process_company_def Let_def)
        next
          case cf: True
          let ?log3 = "log2 @ [Print (FoundLogos (length logos) company_name)]"
          let ?log4 = "?log3 @ [Mkdir ?dir (fs_mkdir env ?log3 ?dir)]"
          show ?thesis
          proof (cases "fs_mkdir env ?log3 ?dir")
            case nm: False
            with pp \<open>b\<close> f n1 Inr \<open>logos \<noteq> []\<close> cf show ?thesis
              by (simp del: py_prints.simps add: process_company_def Let_def)
          next
            case made: True
            show ?thesis
            proof (cases "can_print env (CreatedFolder (last ?dir))")
              case nc: False
              with pp \<open>b\<close> f n1 Inr \<open>logos \<noteq> []\<close> cf made show ?thesis
                by (simp del: py_prints.simps add: process_company_def Let_def)
            next
              case cc: True
              let ?log5 = "?log4 @ [Print (CreatedFolder (last ?dir))]"
              obtain st3 log6 where
                d: "download_all env ?dir (length logos) 0 (?st2, ?log5) logos = (st3, log6)"
                by (cases "download_all env ?dir (length logos) 0 (?st2, ?log5) logos")
              with download_all_extends[of env ?dir "length logos" 0 ?st2 ?log5 logos]
              obtain new2 where n2: "log6 = ?log5 @ new2" by auto
              have "process_company env U (st, log) company_name = (Some st3, log6)"
                using pp \<open>b\<close> f Inr \<open>logos \<noteq> []\<close> cf made cc d
                by (simp del: py_prints.simps add: process_company_def Let_def)
              then show ?thesis using n1 n2 by simp
            qed
          qed
        qed
      qed
    qed
  qed
qed

lemma run_companies_extends:
  "\<exists>new. snd (run_companies env U (st, log) companies) = log @ new"
proof (induction companies arbitrary: st log)
  case Nil
  then show ?case by simp
next
  case (Cons c cs)
  obtain r log1 where p: "process_company env U (st, log) c = (r, log1)"
    by (cases "process_company env U (st, log) c")
  from process_company_extends[of env U st log c] p obtain new1 where n1: "log1 = log @ new1"
    by auto
  show ?case
  proof (cases r)
    case None
    with p n1 show ?thesis by simp
  next
    case (Some st1)
    from Cons.IH[of st1 "log1 @ [Sleep 3]"] obtain new2 where
      "snd (run_companies env U (st1, log1 @ [Sleep 3]) cs) = (log1 @ [Sleep 3]) @ new2" by blast
    with p n1 Some show ?thesis by simp
  qed
qed

lemma run_extends: "\<exists>new. snd (run env U (st, log) companies) = log @ new"
proof -
  let ?log0 = "log @ [Print Banner, Print Rule50, Print TargetFormat,
                      Print (CompaniesToProcess (length companies))]"
  from run_companies_extends[of env U st ?log0 companies]
  obtain new where "snd (run_companies env U (st, ?log0) companies) = ?log0 @ new" by blast
  then show ?thesis by (auto simp: run_def split: prod.splits option.splits)
qed

lemma main_with_arguments_makes_logo_dir:
  assumes "2 \<le> length argv"
  shows "\<exists>rest. snd (main env U argv) = Mkdir logo_dir (fs_mkdir env [] logo_dir) # rest"
proof (cases "fs_mkdir env [] logo_dir")
  case False
  with assms show ?thesis by (simp add: main_def init_fetcher_def Let_def)
next
  case True
  let ?st = "\<lparr>companies_processed = 0, logos_found = 0, logos_downloaded = 0\<rparr>"
  let ?log = "[Mkdir logo_dir True, Print (LogosWillBeSavedTo logo_dir)]"
  from run_extends[of env U ?st ?log "drop 1 argv"]
  obtain new where "snd (run env U (?st, ?log) (drop 1 argv)) = ?log @ new" by blast
  with assms True show ?thesis by (simp add: main_def init_fetcher_def Let_def)
qed

section \<open>The classifier\<close>

text \<open>
  C3. A media title whose lower-cased form contains an allow-list keyword and a deny-list
  keyword is not a logo: the deny list overrides the allow list. "Contains" is Python's
  \<open>in\<close>, a contiguous substring.
\<close>

theorem deny_list_overrides_allow_list:
  assumes "allow \<in> set logo_keywords" and "sublist allow (str_lower U T)"
      and "deny \<in> set skip_keywords" and "sublist deny (str_lower U T)"
  shows "is_logo_file U T = False"
  using assms by (auto simp: is_logo_file_def Let_def has_skip_keyword_iff)

text \<open>
  The title \<open>Wikidata_logo.png\<close> of the specification: it has the keyword \<open>logo\<close> and the
  extension \<open>.png\<close>, and is rejected for \<open>wikidata\<close>.
\<close>

theorem deny_list_overrides_allow_list_witness:
  "lit ''logo'' \<in> set logo_keywords
   \<and> sublist (lit ''logo'') (str_lower ucd_ascii_only (lit ''Wikidata_logo.png''))
   \<and> lit ''wikidata'' \<in> set skip_keywords
   \<and> sublist (lit ''wikidata'') (str_lower ucd_ascii_only (lit ''Wikidata_logo.png''))
   \<and> suffix (lit ''.png'') (str_lower ucd_ascii_only (lit ''Wikidata_logo.png''))
   \<and> is_logo_file ucd_ascii_only (lit ''Wikidata_logo.png'') = False"
proof -
  have a: "lit ''logo'' \<in> set logo_keywords" by (simp add: logo_keywords_def)
  have b: "sublist (lit ''logo'') (str_lower ucd_ascii_only (lit ''Wikidata_logo.png''))"
    unfolding str_contains_sublist[symmetric] by (simp add: eval_defs)
  have c: "lit ''wikidata'' \<in> set skip_keywords" by (simp add: skip_keywords_def)
  have d: "sublist (lit ''wikidata'') (str_lower ucd_ascii_only (lit ''Wikidata_logo.png''))"
    unfolding str_contains_sublist[symmetric] by (simp add: eval_defs)
  have e: "suffix (lit ''.png'') (str_lower ucd_ascii_only (lit ''Wikidata_logo.png''))"
    unfolding str_endswith_suffix[symmetric] by (simp add: eval_defs)
  show ?thesis using a b c d e deny_list_overrides_allow_list[OF a b c d] by simp
qed

text \<open>
  C8. A media title whose lower-cased form ends neither in \<open>.png\<close> nor in \<open>.svg\<close> is not a
  logo, whatever keywords it contains.
\<close>

theorem other_extension_rejected:
  assumes "\<not> suffix (lit ''.png'') (str_lower U T)" and "\<not> suffix (lit ''.svg'') (str_lower U T)"
  shows "is_logo_file U T = False"
  using assms by (simp add: is_logo_file_def Let_def is_png_svg_iff)

text \<open>
  The title \<open>Company_Logo.jpg\<close> of the specification: it has an allow-list keyword and no
  deny-list keyword, and is rejected for its extension.
\<close>

theorem other_extension_rejected_witness:
  "\<not> suffix (lit ''.png'') (str_lower ucd_ascii_only (lit ''Company_Logo.jpg''))
   \<and> \<not> suffix (lit ''.svg'') (str_lower ucd_ascii_only (lit ''Company_Logo.jpg''))
   \<and> has_logo_keyword (str_lower ucd_ascii_only (lit ''Company_Logo.jpg''))
   \<and> \<not> has_skip_keyword (str_lower ucd_ascii_only (lit ''Company_Logo.jpg''))
   \<and> is_logo_file ucd_ascii_only (lit ''Company_Logo.jpg'') = False"
proof -
  have a: "\<not> suffix (lit ''.png'') (str_lower ucd_ascii_only (lit ''Company_Logo.jpg''))"
    unfolding str_endswith_suffix[symmetric] by (simp add: eval_defs)
  have b: "\<not> suffix (lit ''.svg'') (str_lower ucd_ascii_only (lit ''Company_Logo.jpg''))"
    unfolding str_endswith_suffix[symmetric] by (simp add: eval_defs)
  have c: "has_logo_keyword (str_lower ucd_ascii_only (lit ''Company_Logo.jpg''))"
    by (simp add: eval_defs)
  have d: "\<not> has_skip_keyword (str_lower ucd_ascii_only (lit ''Company_Logo.jpg''))"
    by (simp add: eval_defs)
  show ?thesis using a b c d other_extension_rejected[OF a b] by simp
qed

section \<open>The folder name\<close>

text \<open>
  C10. \<open>sanitize_filename\<close> is idempotent: its result has only word characters, none of
  them a blank or a hyphen, and at most 50 of them, so a second pass changes nothing.
\<close>

theorem sanitize_filename_idempotent:
  "sanitize_filename U (sanitize_filename U s) = sanitize_filename U s"
proof -
  let ?t = "sanitize_filename U s"
  have w: "\<forall>c\<in>set ?t. kept_char U c" using sanitize_chars[of _ U s] by (auto simp: kept_char_def)
  have n: "\<forall>c\<in>set ?t. \<not> sep_char U c" using sanitize_chars[of _ U s] by auto
  have "filter (kept_char U) ?t = ?t" using w by (simp add: filter_id_conv)
  moreover have "sub_runs (sep_char U) ?t = ?t" using n by (rule sub_runs_id)
  moreover have "take 50 ?t = ?t" using sanitize_length[of U s] by simp
  ultimately show ?thesis
    by (simp add: sanitize_filename_def[of U "sanitize_filename U s"])
qed

theorem sanitize_filename_idempotent_witness:
  "sanitize_filename ucd_ascii_only (lit ''Coca-Cola, Inc.'') = lit ''Coca_Cola_Inc''
   \<and> sanitize_filename ucd_ascii_only (sanitize_filename ucd_ascii_only (lit ''Coca-Cola, Inc.''))
       = lit ''Coca_Cola_Inc''"
proof -
  have a: "sanitize_filename ucd_ascii_only (lit ''Coca-Cola, Inc.'') = lit ''Coca_Cola_Inc''"
    by (simp add: eval_defs)
  show ?thesis
    using a sanitize_filename_idempotent[of ucd_ascii_only "lit ''Coca-Cola, Inc.''"] by simp
qed

text \<open>
  C7, as stated, says the folder name is obtained by collapsing the unsafe characters to
  underscores. On \<open>Coca-Cola, Inc.\<close> that gives \<open>Coca_Cola_Inc_\<close>; the code gives
  \<open>Coca_Cola_Inc\<close>, because it deletes the comma and the period instead. On \<open>Inc.\<close> the
  code gives \<open>Inc\<close>: the period, an unsafe character, leaves no underscore at all.
\<close>

theorem sanitize_filename_counterexample:
  "sanitize_filename ucd_ascii_only (lit ''Coca-Cola, Inc.'') = lit ''Coca_Cola_Inc''
   \<and> collapse_unsafe_spec ucd_ascii_only (lit ''Coca-Cola, Inc.'') = lit ''Coca_Cola_Inc_''
   \<and> sanitize_filename ucd_ascii_only (lit ''Coca-Cola, Inc.'')
       \<noteq> collapse_unsafe_spec ucd_ascii_only (lit ''Coca-Cola, Inc.'')
   \<and> sanitize_filename ucd_ascii_only (lit ''Inc.'') = lit ''Inc''"
  by (simp add: eval_defs collapse_unsafe_spec_def)

text \<open>
  C7, amended. For every company name the folder name is what the three steps give:
  delete every character that is neither a word character nor a blank nor a hyphen
  (\<open>delete_unsafe_spec\<close>), replace each run of blanks and hyphens by one underscore
  (\<open>collapse_runs_spec\<close>), cut at 50 characters. It consists only of alphanumeric characters
  and underscores and has at most 50 characters. Whatever the character database, the folder
  name of \<open>Coca-Cola, Inc.\<close> is \<open>Coca_Cola_Inc\<close>. Two consequences of the steps: a character
  that is neither a word character nor a blank nor a hyphen can be struck from the name
  without changing the result, and a run of blanks and hyphens between two stretches of
  other word characters becomes one underscore (before the cut at 50 characters).
\<close>

theorem sanitize_filename_shape:
  "sanitize_filename U name = take 50 (collapse_runs_spec U (delete_unsafe_spec U name))
   \<and> (\<forall>c \<in> set (sanitize_filename U name). py_isalnum U c \<or> c = 95)
   \<and> length (sanitize_filename U name) \<le> 50
   \<and> sanitize_filename U (lit ''Coca-Cola, Inc.'') = lit ''Coca_Cola_Inc''
   \<and> (\<not> kept_char U x \<longrightarrow> sanitize_filename U (a @ x # b) = sanitize_filename U (a @ b))
   \<and> ((\<forall>c\<in>set p. re_word U c \<and> \<not> sep_char U c) \<and> (\<forall>c\<in>set q. re_word U c \<and> \<not> sep_char U c)
        \<and> r \<noteq> [] \<and> (\<forall>c\<in>set r. sep_char U c)
      \<longrightarrow> sanitize_filename U (p @ r @ q) = take 50 (p @ 95 # q))"
proof -
  have "\<forall>c \<in> set (sanitize_filename U name). py_isalnum U c \<or> c = 95"
    using sanitize_chars[of _ U name] by (auto simp: re_word_def)
  moreover have "\<not> kept_char U x \<longrightarrow> sanitize_filename U (a @ x # b) = sanitize_filename U (a @ b)"
    using sanitize_delete[of U x a b] by blast
  moreover have "(\<forall>c\<in>set p. re_word U c \<and> \<not> sep_char U c) \<and> (\<forall>c\<in>set q. re_word U c \<and> \<not> sep_char U c)
        \<and> r \<noteq> [] \<and> (\<forall>c\<in>set r. sep_char U c)
      \<longrightarrow> sanitize_filename U (p @ r @ q) = take 50 (p @ 95 # q)"
    using sanitize_collapse[of p U q r] by blast
  ultimately show ?thesis
    using sanitize_filename_steps[of U name] sanitize_length[of U name] sanitize_coca_cola[of U]
    by (intro conjI)
qed

text \<open>
  On \<open>Coca-Cola, Inc.\<close>: the first step leaves \<open>Coca-Cola Inc\<close>, the second gives
  \<open>Coca_Cola_Inc\<close>, 13 characters, which the cut keeps; so that is the folder name. Its
  first character is the letter C, the comma (44) and the period (46) are not in it, striking
  the comma changes nothing, and the hyphen of \<open>Coca-Cola\<close> becomes the underscore (95). A run
  of three, blank hyphen blank, becomes one underscore.
\<close>

theorem sanitize_filename_shape_witness:
  "delete_unsafe_spec ucd_ascii_only (lit ''Coca-Cola, Inc.'') = lit ''Coca-Cola Inc''
   \<and> collapse_runs_spec ucd_ascii_only (lit ''Coca-Cola Inc'') = lit ''Coca_Cola_Inc''
   \<and> collapse_runs_spec ucd_ascii_only (lit ''a - b'') = lit ''a_b''
   \<and> sanitize_filename ucd_ascii_only (lit ''Coca-Cola, Inc.'') = lit ''Coca_Cola_Inc''
   \<and> 67 \<in> set (sanitize_filename ucd_ascii_only (lit ''Coca-Cola, Inc.''))
   \<and> (py_isalnum ucd_ascii_only 67 \<or> (67::nat) = 95)
   \<and> 44 \<notin> set (sanitize_filename ucd_ascii_only (lit ''Coca-Cola, Inc.''))
   \<and> 46 \<notin> set (sanitize_filename ucd_ascii_only (lit ''Coca-Cola, Inc.''))
   \<and> length (sanitize_filename ucd_ascii_only (lit ''Coca-Cola, Inc.'')) \<le> 50
   \<and> \<not> kept_char ucd_ascii_only 44
   \<and> sanitize_filename ucd_ascii_only (lit ''Coca-Cola'' @ 44 # lit '' Inc.'')
       = sanitize_filename ucd_ascii_only (lit ''Coca-Cola'' @ lit '' Inc.'')
   \<and> sanitize_filename ucd_ascii_only (lit ''Coca'' @ lit ''-'' @ lit ''Cola'')
       = take 50 (lit ''Coca'' @ 95 # lit ''Cola'')"
proof -
  note t = sanitize_filename_shape[where U = ucd_ascii_only and name = "lit ''Coca-Cola, Inc.''"
      and x = 44 and a = "lit ''Coca-Cola''" and b = "lit '' Inc.''"
      and p = "lit ''Coca''" and r = "lit ''-''" and q = "lit ''Cola''"]
  have d: "delete_unsafe_spec ucd_ascii_only (lit ''Coca-Cola, Inc.'') = lit ''Coca-Cola Inc''"
    by (simp add: delete_unsafe_spec_def lit_def py_isalnum_def py_isspace_def)
  have c: "collapse_runs_spec ucd_ascii_only (lit ''Coca-Cola Inc'') = lit ''Coca_Cola_Inc''"
    by (simp add: collapse_runs_spec_def lit_def py_isspace_def upt_conv_Cons del: upt_Suc)
  have c3: "collapse_runs_spec ucd_ascii_only (lit ''a - b'') = lit ''a_b''"
    by (simp add: collapse_runs_spec_def lit_def py_isspace_def upt_conv_Cons del: upt_Suc)
  have "sanitize_filename ucd_ascii_only (lit ''Coca-Cola, Inc.'')
      = take 50 (collapse_runs_spec ucd_ascii_only
                   (delete_unsafe_spec ucd_ascii_only (lit ''Coca-Cola, Inc.'')))"
    using t by blast
  then have v: "sanitize_filename ucd_ascii_only (lit ''Coca-Cola, Inc.'') = lit ''Coca_Cola_Inc''"
    unfolding d c by (simp add: lit_def)
  have m: "67 \<in> set (sanitize_filename ucd_ascii_only (lit ''Coca-Cola, Inc.''))"
    "44 \<notin> set (sanitize_filename ucd_ascii_only (lit ''Coca-Cola, Inc.''))"
    "46 \<notin> set (sanitize_filename ucd_ascii_only (lit ''Coca-Cola, Inc.''))"
    unfolding v by (simp_all add: lit_def)
  have k: "\<not> kept_char ucd_ascii_only 44" by (simp add: eval_defs)
  have h: "(\<forall>c\<in>set (lit ''Coca''). re_word ucd_ascii_only c \<and> \<not> sep_char ucd_ascii_only c)
        \<and> (\<forall>c\<in>set (lit ''Cola''). re_word ucd_ascii_only c \<and> \<not> sep_char ucd_ascii_only c)
        \<and> lit ''-'' \<noteq> [] \<and> (\<forall>c\<in>set (lit ''-''). sep_char ucd_ascii_only c)"
    by (simp add: eval_defs)
  from t m(1) have al: "py_isalnum ucd_ascii_only 67 \<or> (67::nat) = 95" by blast
  from t have len: "length (sanitize_filename ucd_ascii_only (lit ''Coca-Cola, Inc.'')) \<le> 50"
    by blast
  from t k have del: "sanitize_filename ucd_ascii_only (lit ''Coca-Cola'' @ 44 # lit '' Inc.'')
       = sanitize_filename ucd_ascii_only (lit ''Coca-Cola'' @ lit '' Inc.'')" by blast
  from t h have col: "sanitize_filename ucd_ascii_only (lit ''Coca'' @ lit ''-'' @ lit ''Cola'')
       = take 50 (lit ''Coca'' @ 95 # lit ''Cola'')" by blast
  show ?thesis by (intro conjI d c c3 v m al len k del col)
qed

section \<open>The metadata fetcher\<close>

text \<open>
  C1. When the metadata query is answered with status 200 and one page whose first
  \<open>imageinfo\<close> record is \<open>info\<close>, \<open>get_logo_info\<close> returns a candidate built from \<open>info\<close> if
  the MIME string of \<open>info\<close> contains \<open>png\<close>, or contains \<open>svg\<close> and the width is at least 100,
  and returns nothing otherwise (a missing MIME string counts as empty, a missing width as
  0). In particular \<open>image/svg+xml\<close> is rejected at width 80 and accepted at width 150,
  and \<open>image/png\<close> is accepted at every width.
\<close>

theorem metadata_acceptance_rule:
  assumes "commons_api env log file_title = metadata_reply page_id (info # others)"
  shows "fst (get_logo_info env log file_title) =
           (if sublist (lit ''png'') (dict_get (ii_mime info) [])
               \<or> (sublist (lit ''svg'') (dict_get (ii_mime info) []) \<and> 100 \<le> dict_get (ii_width info) 0)
            then Some \<lparr>li_url = ii_url info,
                       li_width = dict_get (ii_width info) 0,
                       li_height = dict_get (ii_height info) 0,
                       li_mime = dict_get (ii_mime info) [],
                       li_size = dict_get (ii_size info) 0,
                       li_filename = str_replace file_title (lit ''File:'') []\<rparr>
            else None)
       \<and> (ii_mime info = Some (lit ''image/svg+xml'') \<and> ii_width info = Some 80
            \<longrightarrow> fst (get_logo_info env log file_title) = None)
       \<and> (ii_mime info = Some (lit ''image/svg+xml'') \<and> ii_width info = Some 150
            \<longrightarrow> fst (get_logo_info env log file_title) \<noteq> None)
       \<and> (ii_mime info = Some (lit ''image/png'')
            \<longrightarrow> fst (get_logo_info env log file_title) \<noteq> None)"
proof -
  have g: "fst (get_logo_info env log file_title) =
           (if sublist (lit ''png'') (dict_get (ii_mime info) [])
               \<or> (sublist (lit ''svg'') (dict_get (ii_mime info) []) \<and> 100 \<le> dict_get (ii_width info) 0)
            then Some \<lparr>li_url = ii_url info,
                       li_width = dict_get (ii_width info) 0,
                       li_height = dict_get (ii_height info) 0,
                       li_mime = dict_get (ii_mime info) [],
                       li_size = dict_get (ii_size info) 0,
                       li_filename = str_replace file_title (lit ''File:'') []\<rparr>
            else None)"
    using assms
    by (simp add: get_logo_info_log candidate_of_reply_def try_get_logo_info_def
          metadata_reply_def pages_of_def Let_def str_contains_sublist)
  have png: "sublist (lit ''png'') (lit ''image/png'')"
    unfolding str_contains_sublist[symmetric] by (simp add: lit_def)
  have svg: "sublist (lit ''svg'') (lit ''image/svg+xml'')"
    unfolding str_contains_sublist[symmetric] by (simp add: lit_def)
  have nopng: "\<not> sublist (lit ''png'') (lit ''image/svg+xml'')"
    unfolding str_contains_sublist[symmetric] by (simp add: lit_def)
  show ?thesis
    unfolding g using png svg nopng by (simp add: dict_get_def)
qed

text \<open>In the example world: the wordmark, 150 wide, is accepted; the emblem, 80 wide, is not.\<close>

theorem metadata_acceptance_rule_witness:
  "commons_api acme_env [] (lit ''File:Acme_wordmark.svg'')
     = metadata_reply (lit ''2'')
         (image_record ''https://upload.example/wordmark.svg'' ''image/svg+xml'' 150 # [])
   \<and> fst (get_logo_info acme_env [] (lit ''File:Acme_wordmark.svg'')) = Some acme_wordmark
   \<and> commons_api acme_env [] (lit ''File:Acme_emblem.svg'')
     = metadata_reply (lit ''2'')
         (image_record ''https://upload.example/emblem.svg'' ''image/svg+xml'' 80 # [])
   \<and> fst (get_logo_info acme_env [] (lit ''File:Acme_emblem.svg'')) = None"
proof -
  have a: "commons_api acme_env [] (lit ''File:Acme_wordmark.svg'')
     = metadata_reply (lit ''2'')
         (image_record ''https://upload.example/wordmark.svg'' ''image/svg+xml'' 150 # [])"
    by (simp add: acme_env_def test_env_def acme_meta_def lit_def)
  have b: "commons_api acme_env [] (lit ''File:Acme_emblem.svg'')
     = metadata_reply (lit ''2'')
         (image_record ''https://upload.example/emblem.svg'' ''image/svg+xml'' 80 # [])"
    by (simp add: acme_env_def test_env_def acme_meta_def lit_def)
  have svg: "sublist (lit ''svg'') (lit ''image/svg+xml'')"
    unfolding str_contains_sublist[symmetric] by (simp add: lit_def)
  have r: "str_replace (lit ''File:Acme_wordmark.svg'') (lit ''File:'') [] = lit ''Acme_wordmark.svg''"
    by (simp add: str_replace_def lit_def)
  have w: "fst (get_logo_info acme_env [] (lit ''File:Acme_wordmark.svg'')) = Some acme_wordmark"
    using conjunct1[OF metadata_acceptance_rule[OF a]] svg r
    by (simp add: image_record_def dict_get_def acme_wordmark_def)
  have e: "fst (get_logo_info acme_env [] (lit ''File:Acme_emblem.svg'')) = None"
    using conjunct1[OF conjunct2[OF metadata_acceptance_rule[OF b]]]
    by (simp add: image_record_def)
  show ?thesis by (intro conjI a w b e)
qed

text \<open>
  C6 says the display filename is the title without a leading \<open>File:\<close>, every other
  character kept. The code calls \<open>replace\<close>, which removes every occurrence: the display
  filename of a candidate is the title with each \<open>File:\<close> taken out, wherever it stands.
\<close>

theorem display_filename_removes_every_occurrence:
  assumes "fst (get_logo_info env log file_title) = Some c"
  shows "li_filename c = str_replace file_title (lit ''File:'') []"
proof -
  have f: "first_logo t ps = Some c \<Longrightarrow> li_filename c = str_replace t (lit ''File:'') []" for t ps
  proof (induction ps)
    case Nil
    then show ?case by simp
  next
    case (Cons p ps)
    obtain page_id page_data where p: "p = (page_id, page_data)" by (cases p)
    from Cons p show ?case
      by (auto simp: Let_def split: option.splits list.splits if_splits)
  qed
  from assms have "candidate_of_reply file_title (commons_api env log file_title) = Some c"
    by (simp add: get_logo_info_log)
  then obtain ps where "first_logo file_title ps = Some c"
    by (auto simp: candidate_of_reply_def try_get_logo_info_def
             split: sum.splits http_reply.splits if_splits option.splits)
  then show ?thesis by (rule f)
qed

text \<open>
  The title \<open>File:Acme-File:logo.png\<close> passes the classifier, and its display filename is
  \<open>Acme-logo.png\<close>: the second \<open>File:\<close> is gone, where stripping the prefix would leave
  \<open>Acme-File:logo.png\<close>.
\<close>

theorem display_filename_removes_every_occurrence_witness:
  "is_logo_file ucd_ascii_only (lit ''File:Acme-File:logo.png'')
   \<and> fst (get_logo_info acme_env [] (lit ''File:Acme-File:logo.png''))
       = Some (acme_logo\<lparr>li_filename := lit ''Acme-logo.png''\<rparr>)
   \<and> li_filename (acme_logo\<lparr>li_filename := lit ''Acme-logo.png''\<rparr>)
       = str_replace (lit ''File:Acme-File:logo.png'') (lit ''File:'') []
   \<and> str_replace (lit ''File:Acme-File:logo.png'') (lit ''File:'') [] = lit ''Acme-logo.png''
   \<and> drop 5 (lit ''File:Acme-File:logo.png'') = lit ''Acme-File:logo.png''
   \<and> lit ''Acme-logo.png'' \<noteq> lit ''Acme-File:logo.png''"
proof -
  have a: "is_logo_file ucd_ascii_only (lit ''File:Acme-File:logo.png'')"
    by (simp add: eval_defs)
  have b: "fst (get_logo_info acme_env [] (lit ''File:Acme-File:logo.png''))
       = Some (acme_logo\<lparr>li_filename := lit ''Acme-logo.png''\<rparr>)"
    by (simp add: run_defs env_defs acme_logo_def lit_def)
  have c: "str_replace (lit ''File:Acme-File:logo.png'') (lit ''File:'') [] = lit ''Acme-logo.png''"
    by (simp add: str_replace_def lit_def)
  have d: "drop 5 (lit ''File:Acme-File:logo.png'') = lit ''Acme-File:logo.png''"
    by (simp add: lit_def)
  have e: "lit ''Acme-logo.png'' \<noteq> lit ''Acme-File:logo.png''"
    by (simp add: lit_def)
  show ?thesis
    by (intro conjI a b display_filename_removes_every_occurrence[OF b] c d e)
qed

section \<open>The name resolver\<close>

text \<open>
  C4. The resolution loop of \<open>find_company_logos\<close> runs over the four variants, the name,
  \<open>name, Inc.\<close>, \<open>name Inc.\<close> and \<open>The name Company\<close>, in this order. The existence checks it
  makes are those of an initial stretch \<open>tr\<close> of that list, each with the answer the world
  gave at that moment, each answered "no article" but perhaps the last, and the last answer
  decides: an article there is the page
  returned, for that variant, and no later variant is checked; "no article" there means all
  four were checked and no page is returned. (A check that raises ends the loop as well.)
\<close>

theorem name_resolver_first_existing_variant:
  assumes "find_page env log (search_variations company_name) = (r, log')"
  shows "search_variations company_name =
           [company_name, company_name @ lit '', Inc.'', company_name @ lit '' Inc.'',
            lit ''The '' @ company_name @ lit '' Company'']
       \<and> (\<exists>tr. log' = log @ map (\<lambda>(v, a). PageExists v a) tr
             \<and> transcript env log (map (\<lambda>(v, a). PageExists v a) tr)
             \<and> map fst tr = take (length tr) (search_variations company_name)
             \<and> (\<forall>(v, a) \<in> set (butlast tr). a = NoArticle)
             \<and> (case r of
                   PageFound v t \<Rightarrow> tr \<noteq> [] \<and> last tr = (v, Article t)
                 | NoPageFound \<Rightarrow> length tr = 4 \<and> (\<forall>(v, a) \<in> set tr. a = NoArticle)
                 | LookupRaised \<Rightarrow> tr \<noteq> [] \<and> snd (last tr) = WikiError))"
proof -
  have four: "length (search_variations company_name) = 4" by (simp add: search_variations_def)
  from find_page_log[OF assms] obtain tr where
    t: "log' = log @ map (\<lambda>(v, a). PageExists v a) tr"
       "map fst tr = take (length tr) (search_variations company_name)"
       "\<forall>(v, a) \<in> set (butlast tr). a = NoArticle"
       "case r of
          PageFound v t \<Rightarrow> tr \<noteq> [] \<and> last tr = (v, Article t)
        | NoPageFound \<Rightarrow> length tr = length (search_variations company_name)
                          \<and> (\<forall>(v, a) \<in> set tr. a = NoArticle)
        | LookupRaised \<Rightarrow> tr \<noteq> [] \<and> snd (last tr) = WikiError"
    by blast
  from find_page_transcript[of env log "search_variations company_name"] assms t(1)
  have tr: "transcript env log (map (\<lambda>(v, a). PageExists v a) tr)" by auto
  have "case r of
          PageFound v t \<Rightarrow> tr \<noteq> [] \<and> last tr = (v, Article t)
        | NoPageFound \<Rightarrow> length tr = 4 \<and> (\<forall>(v, a) \<in> set tr. a = NoArticle)
        | LookupRaised \<Rightarrow> tr \<noteq> [] \<and> snd (last tr) = WikiError"
    using t(4) four by (cases r) simp_all
  with t(1,2,3) tr have "\<exists>tr. log' = log @ map (\<lambda>(v, a). PageExists v a) tr
             \<and> transcript env log (map (\<lambda>(v, a). PageExists v a) tr)
             \<and> map fst tr = take (length tr) (search_variations company_name)
             \<and> (\<forall>(v, a) \<in> set (butlast tr). a = NoArticle)
             \<and> (case r of
                   PageFound v t \<Rightarrow> tr \<noteq> [] \<and> last tr = (v, Article t)
                 | NoPageFound \<Rightarrow> length tr = 4 \<and> (\<forall>(v, a) \<in> set tr. a = NoArticle)
                 | LookupRaised \<Rightarrow> tr \<noteq> [] \<and> snd (last tr) = WikiError)"
    by blast
  then show ?thesis by (simp add: search_variations_def)
qed

text \<open>
  In the example world only \<open>Acme Inc.\<close>, the third variant, has an article: the loop
  returns its page after three checks, and \<open>The Acme Company\<close> is never checked.
\<close>

theorem name_resolver_first_existing_variant_witness:
  "find_page acme_env [] (search_variations (lit ''Acme''))
     = (PageFound (lit ''Acme Inc.'') (lit ''Acme Inc.''),
        [PageExists (lit ''Acme'') NoArticle,
         PageExists (lit ''Acme, Inc.'') NoArticle,
         PageExists (lit ''Acme Inc.'') (Article (lit ''Acme Inc.''))])
   \<and> (\<exists>tr. [PageExists (lit ''Acme'') NoArticle,
             PageExists (lit ''Acme, Inc.'') NoArticle,
             PageExists (lit ''Acme Inc.'') (Article (lit ''Acme Inc.''))]
              = [] @ map (\<lambda>(v, a). PageExists v a) tr
           \<and> map fst tr = take (length tr) (search_variations (lit ''Acme''))
           \<and> (\<forall>(v, a) \<in> set (butlast tr). a = NoArticle)
           \<and> tr \<noteq> [] \<and> last tr = (lit ''Acme Inc.'', Article (lit ''Acme Inc.'')))"
proof -
  have run: "find_page acme_env [] (search_variations (lit ''Acme''))
     = (PageFound (lit ''Acme Inc.'') (lit ''Acme Inc.''),
        [PageExists (lit ''Acme'') NoArticle,
         PageExists (lit ''Acme, Inc.'') NoArticle,
         PageExists (lit ''Acme Inc.'') (Article (lit ''Acme Inc.''))])"
    by (simp add: search_variations_def env_defs lit_def)
  note t = conjunct2[OF name_resolver_first_existing_variant[OF run], unfolded lookup.case]
  from t have "\<exists>tr. [PageExists (lit ''Acme'') NoArticle,
             PageExists (lit ''Acme, Inc.'') NoArticle,
             PageExists (lit ''Acme Inc.'') (Article (lit ''Acme Inc.''))]
              = [] @ map (\<lambda>(v, a). PageExists v a) tr
           \<and> map fst tr = take (length tr) (search_variations (lit ''Acme''))
           \<and> (\<forall>(v, a) \<in> set (butlast tr). a = NoArticle)
           \<and> tr \<noteq> [] \<and> last tr = (lit ''Acme Inc.'', Article (lit ''Acme Inc.''))"
    by (elim exE conjE, intro exI conjI)
  with run show ?thesis by (rule conjI)
qed

section \<open>The pipeline\<close>




text \<open>
  C2, as stated, says that a candidate whose MIME string contains \<open>svg\<close> is at least 100
  wide. A MIME string that contains \<open>png\<close> is accepted at any width, also when it contains
  \<open>svg\<close> as well: here a record \<open>image/png+svg\<close>, 50 wide, becomes a candidate.
\<close>

theorem candidate_invariant_counterexample:
  "fst (find_company_logos odd_env ucd_ascii_only [] (lit ''Acme''))
     = Inr [\<lparr>li_url = Some (lit ''https://upload.example/logo.png''), li_width = 50, li_height = 50,
         li_mime = lit ''image/png+svg'', li_size = 1000, li_filename = lit ''Acme_logo.png''\<rparr>]
   \<and> sublist (lit ''svg'') (lit ''image/png+svg'')
   \<and> \<not> 100 \<le> (50::int)"
proof -
  have "sublist (lit ''svg'') (lit ''image/png+svg'')"
    unfolding str_contains_sublist[symmetric] by (simp add: lit_def)
  moreover have "fst (find_company_logos odd_env ucd_ascii_only [] (lit ''Acme''))
     = Inr [\<lparr>li_url = Some (lit ''https://upload.example/logo.png''), li_width = 50, li_height = 50,
         li_mime = lit ''image/png+svg'', li_size = 1000, li_filename = lit ''Acme_logo.png''\<rparr>]"
    by (simp add: run_defs env_defs eval_defs odd_env_def odd_meta_def)
  ultimately show ?thesis by simp
qed

text \<open>
  C2, amended. Every candidate \<open>find_company_logos\<close> returns has a MIME string containing
  \<open>png\<close> or \<open>svg\<close>; if it contains \<open>svg\<close> and not \<open>png\<close>, its width is at least 100. It is
  what a metadata query of this run gave, and every metadata query of the run is for a title
  that passed the classifier: no deny-list keyword in the title, lower-cased or as it is,
  and an extension \<open>.png\<close> or \<open>.svg\<close>.
\<close>

theorem candidate_invariant:
  assumes "find_company_logos env U log company_name = (Inr logos, log')" and "c \<in> set logos"
  shows "(sublist (lit ''png'') (li_mime c) \<or> sublist (lit ''svg'') (li_mime c))
       \<and> (sublist (lit ''svg'') (li_mime c) \<and> \<not> sublist (lit ''png'') (li_mime c)
            \<longrightarrow> 100 \<le> li_width c)
       \<and> (\<exists>(t, r) \<in> set (image_info_calls (drop (length log) log')). candidate_of_reply t r = Some c)
       \<and> (\<forall>(t, r) \<in> set (image_info_calls (drop (length log) log')).
             is_logo_file U t
             \<and> (\<forall>k \<in> set skip_keywords. \<not> sublist k (str_lower U t) \<and> \<not> sublist k t)
             \<and> (suffix (lit ''.png'') (str_lower U t) \<or> suffix (lit ''.svg'') (str_lower U t)))"
proof -
  from find_company_logos_log[OF assms(1)] obtain new where
    n: "log' = log @ new"
       "list_all (\<lambda>(t, r). is_logo_file U t) (image_info_calls new)"
       "logos = [] \<or> logos
          = List.map_filter (\<lambda>(t, r). candidate_of_reply t r) (image_info_calls new)"
    by blast
  have d: "drop (length log) log' = new" using n(1) by simp
  from assms(2) n(3) have "c \<in> set (List.map_filter (\<lambda>(t, r). candidate_of_reply t r)
      (image_info_calls new))" by auto
  then obtain t r where tr: "(t, r) \<in> set (image_info_calls new)"
    "candidate_of_reply t r = Some c"
    by (auto simp: List.map_filter_def)
  have ok: "is_logo_file U t" if "(t, r) \<in> set (image_info_calls new)" for t r
    using n(2) that by (auto simp: list_all_iff)
  have cls: "is_logo_file U t
             \<and> (\<forall>k \<in> set skip_keywords. \<not> sublist k (str_lower U t) \<and> \<not> sublist k t)
             \<and> (suffix (lit ''.png'') (str_lower U t) \<or> suffix (lit ''.svg'') (str_lower U t))"
    if "(t, r) \<in> set (image_info_calls new)" for t r
    using ok[OF that] is_logo_file_no_skip[OF ok[OF that]]
    by (auto simp: is_logo_file_def Let_def has_skip_keyword_iff is_png_svg_iff)
  from candidate_of_reply_Some[OF tr(2)] tr cls show ?thesis
    unfolding d by blast
qed

text \<open>In the example world: the wordmark is a candidate, an SVG and no PNG, and 150 wide.\<close>

theorem candidate_invariant_witness:
  "find_company_logos acme_env ucd_ascii_only [] (lit ''Acme'')
     = (Inr [acme_logo, acme_wordmark], snd (find_company_logos acme_env ucd_ascii_only [] (lit ''Acme'')))
   \<and> acme_wordmark \<in> set [acme_logo, acme_wordmark]
   \<and> (sublist (lit ''png'') (li_mime acme_wordmark) \<or> sublist (lit ''svg'') (li_mime acme_wordmark))
   \<and> sublist (lit ''svg'') (li_mime acme_wordmark)
   \<and> \<not> sublist (lit ''png'') (li_mime acme_wordmark)
   \<and> 100 \<le> li_width acme_wordmark"
proof -
  have run: "find_company_logos acme_env ucd_ascii_only [] (lit ''Acme'')
     = (Inr [acme_logo, acme_wordmark], snd (find_company_logos acme_env ucd_ascii_only [] (lit ''Acme'')))"
    using acme_logos by (metis prod.collapse)
  have mem: "acme_wordmark \<in> set [acme_logo, acme_wordmark]" by simp
  note t = candidate_invariant[OF run mem]
  have s: "sublist (lit ''svg'') (li_mime acme_wordmark)"
    unfolding str_contains_sublist[symmetric] by (simp add: acme_wordmark_def lit_def)
  have p: "\<not> sublist (lit ''png'') (li_mime acme_wordmark)"
    unfolding str_contains_sublist[symmetric] by (simp add: acme_wordmark_def lit_def)
  have w: "100 \<le> li_width acme_wordmark"
    using conjunct1[OF conjunct2[OF t]] s p by blast
  show ?thesis by (intro conjI run mem conjunct1[OF t] s p w)
qed

section \<open>\<open>main\<close>\<close>



end
